theory Spec2Isabelle
  imports Main "HOL-Library.Word" "HOL-Library.Multiset"
begin

section \<open>Data model (src/src/types and tokenize.tsx)\<close>

text \<open>
  The text is a JavaScript string, a sequence of UTF-16 code units; \<open>length\<close> counts
  code units as \<open>text.length\<close> does. Style names, labels, ids and keys are only compared
  and concatenated and are kept as \<open>string\<close>. Offsets and depths are JavaScript numbers
  that only ever hold integers here, so they are \<open>int\<close>; \<open>null\<close> is \<open>None\<close>.
\<close>

type_synonym jschar = "16 word"
type_synonym jsstring = "jschar list"

definition NL :: jschar where
  "NL = 10"

definition SP :: jschar where
  "SP = 32"

type_synonym CSSProperties = "(string \<times> string) list"

record PreprocessedStyle =
  base :: CSSProperties
  highlighted :: CSSProperties
  labelPosition :: "string option"
  autoNestingLayout :: bool
  shape :: string

type_synonym style_table = "string \<Rightarrow> PreprocessedStyle option"

text \<open>
  \<open>SpanData\<close> is \<open>{mouseSelected} & TextRange & SpanAnnotation\<close>; the optional fields are
  options. \<open>span_text\<close> is the field \<open>text\<close> that \<open>tokenize\<close> adds to its copies.
\<close>

record SpanData =
  span_begin :: int
  span_end :: int
  span_label :: "string option"
  span_style :: "string option"
  span_id :: "string option"
  span_selected :: "bool option"
  span_highlighted :: "bool option"
  span_mouseSelected :: bool
  span_text :: "jsstring option"

record TokenAnnotation =
  depth :: "int option"
  openleft :: bool
  openright :: bool
  ann_label :: "string option"
  isFirstTokenOfSpan :: bool
  ann_style :: "string option"
  zIndex :: "int option"
  ann_id :: "string option"
  ann_selected :: "bool option"
  ann_highlighted :: "bool option"
  mouseSelected :: bool
  ann_text :: "jsstring option"

record TextChunk =
  chunk_begin :: int
  chunk_end :: int
  chunk_label :: "string option"
  token_annotations :: "TokenAnnotation list"
  tokens :: "jsstring list"

record TokenData =
  td_text :: jsstring
  td_key :: string
  td_begin :: int
  td_end :: int
  td_token_annotations :: "TokenAnnotation list"
  isFirstTokenOfChunk :: bool
  isLastTokenOfChunk :: bool

datatype js_error = TypeError

section \<open>chunkText\<close>

text \<open>\<open>String.prototype.slice(begin, end)\<close>, negative arguments counting from the end.\<close>

definition js_slice :: "jsstring \<Rightarrow> int \<Rightarrow> int \<Rightarrow> jsstring" where
  "js_slice s b e =
     (let len = int (length s);
          k = (if b < 0 then max (len + b) 0 else min b len);
          final = (if e < 0 then max (len + e) 0 else min e len)
      in take (nat (final - k)) (drop (nat k) s))"

text \<open>\<open>[...new Set(indices)]\<close>: the first occurrence of each value, in insertion order.\<close>

fun set_dedup :: "int list \<Rightarrow> int list" where
  "set_dedup [] = []"
| "set_dedup (x # xs) = x # set_dedup (filter (\<lambda>y. y \<noteq> x) xs)"

definition span_indices :: "SpanData list \<Rightarrow> int list" where
  "span_indices spans = concat (map (\<lambda>s. [span_begin s, span_end s]) spans)"

definition chunk_indices :: "SpanData list \<Rightarrow> jsstring \<Rightarrow> int list" where
  "chunk_indices spans text =
     sort (set_dedup (span_indices spans @ [0, int (length text)]))"

text \<open>
  \<open>text_slice.match(/\n|[^ \n]+|[ ]+/g)\<close>: at each position the alternatives are tried
  in order, each one greedy.
\<close>

definition is_word_char :: "jschar \<Rightarrow> bool" where
  "is_word_char x = (x \<noteq> SP \<and> x \<noteq> NL)"

function match_tokens :: "jsstring \<Rightarrow> jsstring list" where
  "match_tokens [] = []"
| "match_tokens (c # cs) =
     (if c = NL then [c] # match_tokens cs
      else if c \<noteq> SP then
        (c # takeWhile is_word_char cs) # match_tokens (dropWhile is_word_char cs)
      else (c # takeWhile (\<lambda>x. x = SP) cs) # match_tokens (dropWhile (\<lambda>x. x = SP) cs))"
  by pat_completeness auto
termination
  by (relation "measure length") (auto simp: length_dropWhile_le less_Suc_eq_le)

definition chunk_tokens :: "jsstring \<Rightarrow> jsstring list" where
  "chunk_tokens text_slice =
     (if length text_slice > 0
      then filter (\<lambda>t. length t > 0) (match_tokens text_slice)
      else [[]])"

fun chunks_between :: "int list \<Rightarrow> jsstring \<Rightarrow> TextChunk list" where
  "chunks_between (b # e # rest) text =
     \<lparr>chunk_begin = b, chunk_end = e, chunk_label = None, token_annotations = [],
      tokens = chunk_tokens (js_slice text b e)\<rparr> # chunks_between (e # rest) text"
| "chunks_between _ text = []"

definition chunkText :: "SpanData list \<Rightarrow> jsstring \<Rightarrow> TextChunk list" where
  "chunkText spans text = chunks_between (chunk_indices spans text) text"

section \<open>The layout assigner\<close>

text \<open>
  The style table is a plain object; \<open>style_table\<close> holds its own entries. A property
  read \<open>styles[name]\<close> yields the entry of that name, a style; or, when there is none
  and the name is one of the properties of \<open>Object.prototype\<close>, that inherited
  property, an object that has neither \<open>shape\<close> nor \<open>autoNestingLayout\<close>; or
  \<open>undefined\<close>.
\<close>

datatype property_value = Undefined | Inherited | Style PreprocessedStyle

definition object_prototype_names :: "string list" where
  "object_prototype_names =
     [''constructor'', ''hasOwnProperty'', ''isPrototypeOf'', ''propertyIsEnumerable'',
      ''toLocaleString'', ''toString'', ''valueOf'', ''__proto__'', ''__defineGetter__'',
      ''__defineSetter__'', ''__lookupGetter__'', ''__lookupSetter__'']"

text \<open>\<open>styles[name]\<close>. A span without a style reads the property named \<open>undefined\<close>.\<close>

definition style_lookup :: "style_table \<Rightarrow> string option \<Rightarrow> property_value" where
  "style_lookup styles name =
     (let key = (case name of None \<Rightarrow> ''undefined'' | Some n \<Rightarrow> n)
      in case styles key of
           Some st \<Rightarrow> Style st
         | None \<Rightarrow> if key \<in> set object_prototype_names then Inherited else Undefined)"

text \<open>
  \<open>v.shape === 'underline'\<close> for the value \<open>v\<close> of a property read: an inherited
  property has no \<open>shape\<close>, and behind \<open>?.\<close> neither has \<open>undefined\<close>.
\<close>

definition shape_is_underline :: "property_value \<Rightarrow> bool" where
  "shape_is_underline v = (case v of Style st \<Rightarrow> shape st = ''underline'' | _ \<Rightarrow> False)"

text \<open>\<open>styles?.[style]?.shape === 'underline'\<close>\<close>

definition is_underline :: "style_table \<Rightarrow> string option \<Rightarrow> bool" where
  "is_underline styles name = shape_is_underline (style_lookup styles name)"

text \<open>\<open>styles[style]?.autoNestingLayout !== false\<close>\<close>

definition auto_nesting :: "style_table \<Rightarrow> string option \<Rightarrow> bool" where
  "auto_nesting styles name =
     (case style_lookup styles name of Style st \<Rightarrow> autoNestingLayout st | _ \<Rightarrow> True)"

text \<open>The numeric value of a depth in arithmetic and comparisons: \<open>null\<close> converts to 0.\<close>

definition to_number :: "int option \<Rightarrow> int" where
  "to_number d = (case d of None \<Rightarrow> 0 | Some x \<Rightarrow> x)"

record LayoutState =
  text_chunks :: "TextChunk list"
  underlineCluster :: "nat list"
  underlineClusterDepth :: int
  rightMostOffset :: int

definition reverse_annotation :: "style_table \<Rightarrow> int \<Rightarrow> TokenAnnotation \<Rightarrow> TokenAnnotation" where
  "reverse_annotation styles ucd a =
     (if is_underline styles (ann_style a)
      then a\<lparr>depth := Some (to_number (depth a) - ucd - 1)\<rparr>
      else a)"

definition reverse_chunk :: "style_table \<Rightarrow> int \<Rightarrow> TextChunk \<Rightarrow> TextChunk" where
  "reverse_chunk styles ucd c =
     c\<lparr>token_annotations := map (reverse_annotation styles ucd) (token_annotations c)\<rparr>"

text \<open>
  \<open>underlineCluster\<close> is a \<open>Set<number>\<close>: a list without repetition in insertion order,
  which is the order \<open>forEach\<close> visits.
\<close>

definition cluster_add :: "nat \<Rightarrow> nat list \<Rightarrow> nat list" where
  "cluster_add i cl = (if i \<in> set cl then cl else cl @ [i])"

definition reverseUnderlineClusterDepths :: "style_table \<Rightarrow> LayoutState \<Rightarrow> LayoutState" where
  "reverseUnderlineClusterDepths styles st =
     st\<lparr>text_chunks :=
          fold (\<lambda>i cs. cs[i := reverse_chunk styles (underlineClusterDepth st) (cs ! i)])
            (underlineCluster st) (text_chunks st)\<rparr>"

text \<open>
  The arrays \<open>missingBoxDepths\<close>, \<open>missingUnderlineDepths\<close> and \<open>missingZIndices\<close> hold
  \<open>true\<close> or a hole; \<open>arr[d] = true\<close> extends the array when \<open>d\<close> is past its end and
  leaves its elements alone when \<open>d\<close> is \<open>null\<close> or negative (it sets a property that
  is not an index).
\<close>

definition mark :: "bool list \<Rightarrow> int option \<Rightarrow> bool list" where
  "mark arr d =
     (case d of
        None \<Rightarrow> arr
      | Some i \<Rightarrow>
          if i < 0 then arr
          else if nat i < length arr then arr[nat i := True]
          else arr @ replicate (nat i - length arr) False @ [True])"

text \<open>\<open>arr.findIndex(isNot)\<close>, and the array's length when it finds nothing.\<close>

definition findIndex_isNot :: "bool list \<Rightarrow> int" where
  "findIndex_isNot arr =
     (if \<exists>x \<in> set arr. \<not> x then int (length (takeWhile (\<lambda>x. x) arr)) else - 1)"

definition first_missing :: "bool list \<Rightarrow> int" where
  "first_missing arr =
     (let i = findIndex_isNot arr in if i = - 1 then int (length arr) else i)"

fun scan_annotations ::
  "style_table \<Rightarrow> TokenAnnotation list \<Rightarrow> bool list \<times> bool list \<times> bool list
     \<Rightarrow> js_error + bool list \<times> bool list \<times> bool list" where
  "scan_annotations styles [] acc = Inr acc"
| "scan_annotations styles (a # as) (mb, mu, mz) =
     (if mouseSelected a then scan_annotations styles as (mb, mu, mz)
      else if style_lookup styles (ann_style a) = Undefined then Inl TypeError
      else if shape_is_underline (style_lookup styles (ann_style a))
      then scan_annotations styles as (mb, mark mu (depth a), mark mz (zIndex a))
      else scan_annotations styles as (mark mb (depth a), mu, mark mz (zIndex a)))"

definition compute_depths ::
  "style_table \<Rightarrow> string option \<Rightarrow> TokenAnnotation list \<Rightarrow> js_error + int option \<times> int option" where
  "compute_depths styles style anns =
     (case scan_annotations styles anns ([False], [False], [False]) of
        Inl e \<Rightarrow> Inl e
      | Inr (mb, mu, mz) \<Rightarrow>
          if style_lookup styles style = Undefined then Inl TypeError
          else Inr (Some (first_missing
                            (if shape_is_underline (style_lookup styles style) then mu else mb)),
                    Some (first_missing mz)))"

definition overlaps :: "TextChunk \<Rightarrow> SpanData \<Rightarrow> bool" where
  "overlaps c s = (chunk_begin c < span_end s \<and> span_begin s < chunk_end c)"

definition make_annotation ::
  "TextChunk \<Rightarrow> SpanData \<Rightarrow> int option \<Rightarrow> int option \<Rightarrow> TokenAnnotation" where
  "make_annotation c s newDepth newZIndex =
     \<lparr>depth = newDepth,
      openleft = (chunk_begin c \<noteq> span_begin s),
      openright = (chunk_end c \<noteq> span_end s),
      ann_label = span_label s,
      isFirstTokenOfSpan = (chunk_begin c = span_begin s),
      ann_style = span_style s,
      zIndex = newZIndex,
      ann_id = span_id s,
      ann_selected = span_selected s,
      ann_highlighted = span_highlighted s,
      mouseSelected = span_mouseSelected s,
      ann_text = span_text s\<rparr>"

text \<open>
  The inner loop over \<open>text_chunk_i\<close> for one span. The accumulator is
  \<open>(newDepth, newZIndex, underlineCluster, underlineClusterDepth)\<close>. An exception leaves
  the loop at once, so the chunks changed so far are not part of the result. In
  \<open>underlineClusterDepth < newDepth\<close> a \<open>null\<close> depth counts as 0; the assignment
  would then store \<open>null\<close>, which every later use reads as 0 again.
\<close>

fun style_span_chunks ::
  "style_table \<Rightarrow> SpanData \<Rightarrow> nat \<Rightarrow> TextChunk list
     \<Rightarrow> int option \<times> int option \<times> nat list \<times> int
     \<Rightarrow> js_error + TextChunk list \<times> nat list \<times> int" where
  "style_span_chunks styles s i [] (nd, nz, cl, ucd) = Inr ([], cl, ucd)"
| "style_span_chunks styles s i (c # cs) (nd, nz, cl, ucd) =
     (if overlaps c s then
        (case (if nd = None \<and> \<not> span_mouseSelected s \<and> auto_nesting styles (span_style s)
               then compute_depths styles (span_style s) (token_annotations c)
               else Inr (nd, nz)) of
           Inl e \<Rightarrow> Inl e
         | Inr (nd', nz') \<Rightarrow>
             (case style_span_chunks styles s (Suc i) cs
                     (nd', nz', cluster_add i cl,
                      if is_underline styles (span_style s) \<and> ucd < to_number nd'
                      then to_number nd' else ucd) of
                Inl e \<Rightarrow> Inl e
              | Inr (cs', cl', ucd') \<Rightarrow>
                  Inr (c\<lparr>chunk_label :=
                            (if chunk_begin c = span_begin s then span_label s
                             else chunk_label c),
                          token_annotations :=
                            make_annotation c s nd' nz' # token_annotations c\<rparr> # cs',
                       cl', ucd')))
      else
        (case style_span_chunks styles s (Suc i) cs (nd, nz, cl, ucd) of
           Inl e \<Rightarrow> Inl e
         | Inr (cs', cl', ucd') \<Rightarrow> Inr (c # cs', cl', ucd')))"

definition cluster_boundary :: "style_table \<Rightarrow> SpanData \<Rightarrow> LayoutState \<Rightarrow> LayoutState" where
  "cluster_boundary styles s st =
     (if span_begin s \<ge> rightMostOffset st then
        (reverseUnderlineClusterDepths styles st)
          \<lparr>underlineCluster := [], rightMostOffset := span_end s\<rparr>
      else if rightMostOffset st < span_end s then st\<lparr>rightMostOffset := span_end s\<rparr>
      else st)"

definition style_span :: "style_table \<Rightarrow> SpanData \<Rightarrow> LayoutState \<Rightarrow> js_error + LayoutState" where
  "style_span styles s st =
     (let st1 = cluster_boundary styles s st in
      case style_span_chunks styles s 0 (text_chunks st1)
             (None, None, underlineCluster st1, underlineClusterDepth st1) of
        Inl e \<Rightarrow> Inl e
      | Inr (cs, cl, ucd) \<Rightarrow>
          Inr (st1\<lparr>text_chunks := cs, underlineCluster := cl, underlineClusterDepth := ucd\<rparr>))"

fun style_spans :: "style_table \<Rightarrow> SpanData list \<Rightarrow> LayoutState \<Rightarrow> js_error + LayoutState" where
  "style_spans styles [] st = Inr st"
| "style_spans styles (s # ss) st =
     (case style_span styles s st of
        Inl e \<Rightarrow> Inl e
      | Inr st' \<Rightarrow> style_spans styles ss st')"

definition init_state :: "TextChunk list \<Rightarrow> LayoutState" where
  "init_state cs =
     \<lparr>text_chunks = cs, underlineCluster = [], underlineClusterDepth = 0, rightMostOffset = 0\<rparr>"

text \<open>The function \<^verbatim>\<open>styleTextChunks_\<close> of the source; a name cannot end in an underscore here.\<close>

definition styleTextChunks ::
  "TextChunk list \<Rightarrow> SpanData list \<Rightarrow> style_table \<Rightarrow> js_error + TextChunk list" where
  "styleTextChunks cs spans styles =
     (case style_spans styles spans (init_state cs) of
        Inl e \<Rightarrow> Inl e
      | Inr st \<Rightarrow> Inr (text_chunks (reverseUnderlineClusterDepths styles st)))"

section \<open>tokenizeTextChunks\<close>

text \<open>The decimal text of an integer, as a template literal prints it.\<close>

definition digit_char :: "nat \<Rightarrow> char" where
  "digit_char d = char_of (48 + d)"

function string_of_nat :: "nat \<Rightarrow> string" where
  "string_of_nat n =
     (if n < 10 then [digit_char n] else string_of_nat (n div 10) @ [digit_char (n mod 10)])"
  by pat_completeness auto
termination
  by (relation "measure id") auto

definition string_of_int :: "int \<Rightarrow> string" where
  "string_of_int i = (if i < 0 then CHR ''-'' # string_of_nat (nat (- i)) else string_of_nat (nat i))"

definition token_key :: "int \<Rightarrow> int \<Rightarrow> string" where
  "token_key b e = string_of_int b @ ''-'' @ string_of_int e"

text \<open>
  The inner loop over \<open>token_i\<close> of one chunk; the accumulator is
  \<open>(current_line, all_lines)\<close>, \<open>n\<close> is \<open>tokens.length\<close>.
\<close>

fun tokenize_chunk_tokens ::
  "TextChunk \<Rightarrow> nat \<Rightarrow> nat \<Rightarrow> int \<Rightarrow> jsstring list
     \<Rightarrow> TokenData list \<times> TokenData list list \<Rightarrow> TokenData list \<times> TokenData list list" where
  "tokenize_chunk_tokens c n token_i offset_in_text_chunk [] acc = acc"
| "tokenize_chunk_tokens c n token_i offset_in_text_chunk (t # ts) (current_line, all_lines) =
     (let span_begin = chunk_begin c + offset_in_text_chunk;
          span_end = chunk_begin c + offset_in_text_chunk + int (length t)
      in tokenize_chunk_tokens c n (Suc token_i) (offset_in_text_chunk + int (length t)) ts
           (if t = [NL] then ([], all_lines @ [current_line])
            else (current_line @
                    [\<lparr>td_text = t, td_key = token_key span_begin span_end,
                      td_begin = span_begin, td_end = span_end,
                      td_token_annotations = token_annotations c,
                      isFirstTokenOfChunk = (token_i = 0),
                      isLastTokenOfChunk = (int token_i = int n - 1)\<rparr>],
                  all_lines)))"

text \<open>
  The outer loop over the chunks; the accumulator also carries \<open>tokens\<close>, the token
  list of the chunk visited last, which the code reads after the loop.
\<close>

fun tokenize_chunks ::
  "TextChunk list \<Rightarrow> TokenData list \<times> TokenData list list \<times> jsstring list
     \<Rightarrow> TokenData list \<times> TokenData list list \<times> jsstring list" where
  "tokenize_chunks [] acc = acc"
| "tokenize_chunks (c # cs) (current_line, all_lines, toks) =
     (let (current_line', all_lines') =
            tokenize_chunk_tokens c (length (tokens c)) 0 0 (tokens c) (current_line, all_lines)
      in tokenize_chunks cs (current_line', all_lines', tokens c))"

definition tokenizeTextChunks :: "TextChunk list \<Rightarrow> TokenData list list" where
  "tokenizeTextChunks cs =
     (let (current_line, all_lines, toks) = tokenize_chunks cs ([], [], [])
      in if length current_line > 0 \<or> (length toks \<noteq> 0 \<and> last toks = [NL])
         then all_lines @ [current_line]
         else all_lines)"

section \<open>tokenize\<close>

text \<open>The comparator handed to \<open>Array.prototype.sort\<close>.\<close>

definition compare_spans :: "SpanData \<Rightarrow> SpanData \<Rightarrow> int" where
  "compare_spans a b =
     (if span_mouseSelected a = span_mouseSelected b
      then (if span_begin a \<noteq> span_begin b then span_begin a - span_begin b
            else span_end b - span_end a)
      else (if span_mouseSelected a then - 1 else 1))"

text \<open>
  \<open>Array.prototype.sort\<close> is stable and sorts the array in place. With a comparator that
  is a total preorder, as this one is, the result is the stable insertion sort below.
\<close>

fun insert_span :: "SpanData \<Rightarrow> SpanData list \<Rightarrow> SpanData list" where
  "insert_span x [] = [x]"
| "insert_span x (y # ys) =
     (if compare_spans x y \<le> 0 then x # y # ys else y # insert_span x ys)"

definition sort_spans :: "SpanData list \<Rightarrow> SpanData list" where
  "sort_spans spans = foldr insert_span spans []"

definition with_text :: "jsstring \<Rightarrow> SpanData \<Rightarrow> SpanData" where
  "with_text text span = span\<lparr>span_text := Some (js_slice text (span_begin span) (span_end span))\<rparr>"

record TokenizeResult =
  lines :: "TokenData list list"
  ids :: "string option list"

text \<open>
  \<open>tokenize\<close> returns the contents of the caller's array after the call (sorted in
  place before anything can throw; its elements are the caller's objects, the copies
  with \<open>text\<close> live in a new array) and the returned object or the exception.
\<close>

text \<open>
  The value of \<open>text_chunks\<close> inside \<open>tokenize\<close> once \<^verbatim>\<open>styleTextChunks_\<close> has run:
  the chunks whose annotation lists the returned tokens share.
\<close>

definition styled_text_chunks ::
  "SpanData list \<Rightarrow> jsstring \<Rightarrow> style_table \<Rightarrow> js_error + TextChunk list" where
  "styled_text_chunks spans text styles =
     (let spans' = map (with_text text) (sort_spans spans)
      in styleTextChunks (chunkText spans' text) spans' styles)"

definition tokenize ::
  "SpanData list \<Rightarrow> jsstring \<Rightarrow> style_table \<Rightarrow> SpanData list \<times> (js_error + TokenizeResult)" where
  "tokenize spans text styles =
     (let sorted = sort_spans spans;
          spans' = map (with_text text) sorted
      in (sorted,
          case styled_text_chunks spans text styles of
            Inl e \<Rightarrow> Inl e
          | Inr chunks \<Rightarrow>
              Inr \<lparr>lines = tokenizeTextChunks chunks, ids = map span_id spans'\<rparr>))"

section \<open>Concrete inputs\<close>

definition mk_span :: "int \<Rightarrow> int \<Rightarrow> string \<Rightarrow> bool \<Rightarrow> SpanData" where
  "mk_span b e style ms =
     \<lparr>span_begin = b, span_end = e, span_label = None, span_style = Some style,
      span_id = None, span_selected = None, span_highlighted = None,
      span_mouseSelected = ms, span_text = None\<rparr>"

definition mk_style :: "string \<Rightarrow> bool \<Rightarrow> PreprocessedStyle" where
  "mk_style sh auto =
     \<lparr>base = [], highlighted = [], labelPosition = None, autoNestingLayout = auto, shape = sh\<rparr>"

text \<open>
  A style table with an underline and a box style that use the automatic layout
  (\<open>u\<close>, \<open>b\<close>) and an underline and a box style that opt out of it (\<open>v\<close>, \<open>c\<close>).
\<close>

definition example_styles :: style_table where
  "example_styles =
     [''u'' \<mapsto> mk_style ''underline'' True, ''b'' \<mapsto> mk_style ''box'' True,
      ''v'' \<mapsto> mk_style ''underline'' False, ''c'' \<mapsto> mk_style ''box'' False]"

text \<open>The text \<open>abcdefghij\<close>.\<close>

definition example_text :: jsstring where
  "example_text = [97, 98, 99, 100, 101, 102, 103, 104, 105, 106]"

definition annotation_depths :: "js_error + TextChunk list \<Rightarrow> js_error + int option list list" where
  "annotation_depths r =
     (case r of Inl e \<Rightarrow> Inl e | Inr cs \<Rightarrow> Inr (map (\<lambda>c. map depth (token_annotations c)) cs))"

definition annotation_zIndices :: "js_error + TextChunk list \<Rightarrow> js_error + int option list list" where
  "annotation_zIndices r =
     (case r of Inl e \<Rightarrow> Inl e | Inr cs \<Rightarrow> Inr (map (\<lambda>c. map zIndex (token_annotations c)) cs))"

section \<open>The layout of one span, in closed form\<close>

text \<open>
  What the loop over the chunks does to one chunk once the span's depth and z-index
  are known: the label, and the new annotation at the front of the list.
\<close>

definition add_annotation :: "SpanData \<Rightarrow> int option \<Rightarrow> int option \<Rightarrow> TextChunk \<Rightarrow> TextChunk" where
  "add_annotation s nd nz c =
     (if overlaps c s
      then c\<lparr>chunk_label :=
               (if chunk_begin c = span_begin s then span_label s else chunk_label c),
             token_annotations := make_annotation c s nd nz # token_annotations c\<rparr>
      else c)"

text \<open>The cluster after the loop: the indices of the overlapping chunks, added in order.\<close>

fun cluster_after :: "SpanData \<Rightarrow> nat \<Rightarrow> TextChunk list \<Rightarrow> nat list \<Rightarrow> nat list" where
  "cluster_after s i [] cl = cl"
| "cluster_after s i (c # cs) cl =
     cluster_after s (Suc i) cs (if overlaps c s then cluster_add i cl else cl)"

definition ucd_after :: "style_table \<Rightarrow> SpanData \<Rightarrow> TextChunk list \<Rightarrow> int option \<Rightarrow> int \<Rightarrow> int" where
  "ucd_after styles s cs nd ucd =
     (if (\<exists>c \<in> set cs. overlaps c s) \<and> is_underline styles (span_style s) \<and> ucd < to_number nd
      then to_number nd else ucd)"

text \<open>
  The depth and z-index of a span: computed on its first overlapping chunk, unless the
  span is mouse-selected or its style opts out.
\<close>

definition span_depths ::
  "style_table \<Rightarrow> SpanData \<Rightarrow> TextChunk list \<Rightarrow> js_error + int option \<times> int option" where
  "span_depths styles s cs =
     (if \<not> span_mouseSelected s \<and> auto_nesting styles (span_style s)
      then (case find (\<lambda>c. overlaps c s) cs of
              None \<Rightarrow> Inr (None, None)
            | Some c0 \<Rightarrow> compute_depths styles (span_style s) (token_annotations c0))
      else Inr (None, None))"

section \<open>Properties of a layout\<close>

text \<open>
  The sign of a depth: an underline annotation with a depth has a negative one, any
  other annotation with a depth has a non-negative one.
\<close>

definition sign_ok :: "style_table \<Rightarrow> TokenAnnotation \<Rightarrow> bool" where
  "sign_ok styles a =
     (case depth a of
        None \<Rightarrow> True
      | Some x \<Rightarrow> if is_underline styles (ann_style a) then x < 0 else 0 \<le> x)"

text \<open>
  A chunk outside the cluster has been reversed: its underline depths are numbers below
  zero. A chunk inside may hold underline depths up to \<open>underlineClusterDepth\<close>.
\<close>

definition settled_chunk :: "style_table \<Rightarrow> TextChunk \<Rightarrow> bool" where
  "settled_chunk styles c =
     (\<forall>a \<in> set (token_annotations c).
        sign_ok styles a \<and> (is_underline styles (ann_style a) \<longrightarrow> depth a \<noteq> None))"

definition open_chunk :: "style_table \<Rightarrow> int \<Rightarrow> TextChunk \<Rightarrow> bool" where
  "open_chunk styles ucd c =
     (\<forall>a \<in> set (token_annotations c).
        if is_underline styles (ann_style a) then to_number (depth a) \<le> ucd
        else (\<forall>x. depth a = Some x \<longrightarrow> 0 \<le> x))"

definition sign_invariant :: "style_table \<Rightarrow> LayoutState \<Rightarrow> bool" where
  "sign_invariant styles st =
     (0 \<le> underlineClusterDepth st \<and> distinct (underlineCluster st) \<and>
      (\<forall>k < length (text_chunks st).
         open_chunk styles (underlineClusterDepth st) (text_chunks st ! k) \<and>
         (k \<notin> set (underlineCluster st) \<longrightarrow> settled_chunk styles (text_chunks st ! k))))"

section \<open>The geometry of the chunks\<close>

definition chunk_bounds :: "TextChunk \<Rightarrow> int \<times> int" where
  "chunk_bounds c = (chunk_begin c, chunk_end c)"

text \<open>Chunks are non-empty intervals, each one starting where the one before it ends.\<close>

definition well_chunked :: "TextChunk list \<Rightarrow> bool" where
  "well_chunked cs =
     ((\<forall>i < length cs. chunk_begin (cs ! i) < chunk_end (cs ! i)) \<and>
      (\<forall>i. Suc i < length cs \<longrightarrow> chunk_end (cs ! i) = chunk_begin (cs ! Suc i)))"

text \<open>
  A span is aligned with the chunks when neither of its ends falls strictly inside a
  chunk, and when, if it is not empty, a chunk starts at its begin.
\<close>

definition aligned :: "TextChunk list \<Rightarrow> SpanData \<Rightarrow> bool" where
  "aligned cs s =
     ((\<forall>i < length cs.
         \<not> (chunk_begin (cs ! i) < span_begin s \<and> span_begin s < chunk_end (cs ! i)) \<and>
         \<not> (chunk_begin (cs ! i) < span_end s \<and> span_end s < chunk_end (cs ! i))) \<and>
      (span_begin s < span_end s \<longrightarrow> (\<exists>i < length cs. chunk_begin (cs ! i) = span_begin s)))"

text \<open>The geometry that the span walk keeps, for the spans still to come.\<close>

definition geometry :: "LayoutState \<Rightarrow> SpanData list \<Rightarrow> bool" where
  "geometry st ss =
     (distinct (underlineCluster st) \<and> well_chunked (text_chunks st) \<and>
      (\<forall>s \<in> set ss. aligned (text_chunks st) s))"

text \<open>Every annotation that a later scan will look up has a style that reads as defined.\<close>

definition styles_known :: "style_table \<Rightarrow> TextChunk list \<Rightarrow> bool" where
  "styles_known styles cs =
     (\<forall>c \<in> set cs. \<forall>a \<in> set (token_annotations c).
        \<not> mouseSelected a \<longrightarrow> style_lookup styles (ann_style a) \<noteq> Undefined)"

section \<open>Where the annotations come from\<close>

text \<open>
  An annotation on chunk \<open>c\<close> comes from span \<open>s\<close> when it has the fields of the
  object the loop builds for \<open>c\<close> and \<open>s\<close>, all but the depth and the z-index.
\<close>

definition from_span :: "TextChunk \<Rightarrow> TokenAnnotation \<Rightarrow> SpanData \<Rightarrow> bool" where
  "from_span c a s =
     (openleft a = (chunk_begin c \<noteq> span_begin s) \<and>
      openright a = (chunk_end c \<noteq> span_end s) \<and>
      ann_label a = span_label s \<and>
      isFirstTokenOfSpan a = (chunk_begin c = span_begin s) \<and>
      ann_style a = span_style s \<and>
      ann_id a = span_id s \<and>
      ann_selected a = span_selected s \<and>
      ann_highlighted a = span_highlighted s \<and>
      mouseSelected a = span_mouseSelected s \<and>
      ann_text a = span_text s)"

text \<open>
  The annotations of every chunk come, one for one and latest first, from the spans
  processed so far that overlap the chunk.
\<close>

definition sourced :: "TextChunk list \<Rightarrow> SpanData list \<Rightarrow> bool" where
  "sourced cs processed =
     (\<forall>k < length cs.
        list_all2 (from_span (cs ! k)) (token_annotations (cs ! k))
          (rev (filter (overlaps (cs ! k)) processed)))"

section \<open>The line splitter, as the specification words it\<close>

text \<open>
  The token number \<open>i\<close> of a chunk, as a \<open>TokenData\<close>: it begins at the chunk's begin
  plus the lengths of the tokens before it, and its key is \<open>begin-end\<close>.
\<close>

definition token_data :: "TextChunk \<Rightarrow> nat \<Rightarrow> TokenData" where
  "token_data c i =
     (let b = chunk_begin c + int (length (concat (take i (tokens c))));
          e = b + int (length (tokens c ! i))
      in \<lparr>td_text = tokens c ! i, td_key = string_of_int b @ ''-'' @ string_of_int e,
          td_begin = b, td_end = e, td_token_annotations = token_annotations c,
          isFirstTokenOfChunk = (i = 0), isLastTokenOfChunk = (Suc i = length (tokens c))\<rparr>)"

text \<open>Each token is a line break (\<open>None\<close>) when it is a single newline, a token otherwise.\<close>

definition chunk_events :: "TextChunk \<Rightarrow> TokenData option list" where
  "chunk_events c =
     map (\<lambda>i. if tokens c ! i = [NL] then None else Some (token_data c i))
       [0 ..< length (tokens c)]"

definition token_events :: "TextChunk list \<Rightarrow> TokenData option list" where
  "token_events cs = concat (map chunk_events cs)"

text \<open>The lines between the line breaks; the last one is the line still open at the end.\<close>

fun split_at_breaks :: "TokenData option list \<Rightarrow> TokenData list list" where
  "split_at_breaks [] = [[]]"
| "split_at_breaks (None # es) = [] # split_at_breaks es"
| "split_at_breaks (Some d # es) = (d # hd (split_at_breaks es)) # tl (split_at_breaks es)"

text \<open>
  The open line at the end is kept exactly when it is not empty or the last token was a
  line break.
\<close>

definition lines_spec :: "TokenData option list \<Rightarrow> TokenData list list" where
  "lines_spec es =
     (if last (split_at_breaks es) \<noteq> [] \<or> (es \<noteq> [] \<and> last es = None)
      then split_at_breaks es
      else butlast (split_at_breaks es))"

text \<open>The effect of the tokens on \<open>(current_line, all_lines)\<close>, one event at a time.\<close>

fun push_events ::
  "TokenData option list \<Rightarrow> TokenData list \<times> TokenData list list
     \<Rightarrow> TokenData list \<times> TokenData list list" where
  "push_events [] acc = acc"
| "push_events (None # es) (current_line, all_lines) =
     push_events es ([], all_lines @ [current_line])"
| "push_events (Some d # es) (current_line, all_lines) =
     push_events es (current_line @ [d], all_lines)"

section \<open>First-fit depths\<close>

text \<open>\<open>d\<close> is the smallest non-negative integer that is not in \<open>S\<close>.\<close>

definition first_free :: "int \<Rightarrow> int set \<Rightarrow> bool" where
  "first_free d S = (0 \<le> d \<and> d \<notin> S \<and> (\<forall>x. 0 \<le> x \<and> x < d \<longrightarrow> x \<in> S))"

text \<open>The indices at which one of the \<open>missing\<close> arrays holds \<open>true\<close>.\<close>

definition occupied :: "bool list \<Rightarrow> nat set" where
  "occupied arr = {i. i < length arr \<and> arr ! i}"

text \<open>
  The depths that annotations of one shape category, not mouse-selected, hold on a
  chunk, and the z-indices that annotations not mouse-selected hold there.
\<close>

definition shape_depths :: "style_table \<Rightarrow> bool \<Rightarrow> TokenAnnotation list \<Rightarrow> int set" where
  "shape_depths styles u anns =
     {x. \<exists>a \<in> set anns. \<not> mouseSelected a \<and> is_underline styles (ann_style a) = u
           \<and> depth a = Some x}"

definition taken_zIndices :: "TokenAnnotation list \<Rightarrow> int set" where
  "taken_zIndices anns = {x. \<exists>a \<in> set anns. \<not> mouseSelected a \<and> zIndex a = Some x}"

text \<open>
  An annotation is laid out automatically when its span is not mouse-selected and its
  style does not opt out.
\<close>

definition laid_out :: "style_table \<Rightarrow> TokenAnnotation \<Rightarrow> bool" where
  "laid_out styles a = (\<not> mouseSelected a \<and> auto_nesting styles (ann_style a))"

definition depth_key :: "style_table \<Rightarrow> TokenAnnotation \<Rightarrow> bool \<times> int option" where
  "depth_key styles a = (is_underline styles (ann_style a), depth a)"

definition reg_keys :: "style_table \<Rightarrow> TextChunk \<Rightarrow> (bool \<times> int option) set" where
  "reg_keys styles c =
     depth_key styles ` {a \<in> set (token_annotations c). \<not> mouseSelected a}"

text \<open>
  On a chunk, the automatically laid out annotations have a depth, and no two of one
  shape category have the same.
\<close>

definition distinct_depths :: "style_table \<Rightarrow> TextChunk \<Rightarrow> bool" where
  "distinct_depths styles c =
     (distinct (map (depth_key styles) (filter (laid_out styles) (token_annotations c))) \<and>
      (\<forall>a \<in> set (token_annotations c). laid_out styles a \<longrightarrow> depth a \<noteq> None))"

text \<open>
  The invariant of the walk over the spans that are not mouse-selected, \<open>B\<close> being the
  begin of the last one: chunks that hold such annotations end by
  \<open>max rightMostOffset B\<close>; from \<open>B\<close> rightwards each chunk holds the depths of the next.
\<close>

definition layout_inv :: "style_table \<Rightarrow> int \<Rightarrow> LayoutState \<Rightarrow> bool" where
  "layout_inv styles B st =
     ((\<forall>k < length (text_chunks st).
         (\<exists>a \<in> set (token_annotations (text_chunks st ! k)). \<not> mouseSelected a)
         \<longrightarrow> chunk_end (text_chunks st ! k) \<le> max (rightMostOffset st) B) \<and>
      (\<forall>k. Suc k < length (text_chunks st) \<and> B \<le> chunk_begin (text_chunks st ! k)
         \<longrightarrow> reg_keys styles (text_chunks st ! Suc k) \<subseteq> reg_keys styles (text_chunks st ! k)) \<and>
      (\<forall>k < length (text_chunks st). distinct_depths styles (text_chunks st ! k)))"

definition only_mouse_selected :: "LayoutState \<Rightarrow> bool" where
  "only_mouse_selected st =
     (\<forall>k < length (text_chunks st).
        \<forall>a \<in> set (token_annotations (text_chunks st ! k)). mouseSelected a)"

text \<open>
  For each annotation of each chunk: whether it is mouse-selected, whether its style is
  an underline, and its depth.
\<close>

definition annotation_summary ::
  "style_table \<Rightarrow> js_error + TextChunk list \<Rightarrow> js_error + (bool \<times> bool \<times> int option) list list" where
  "annotation_summary styles r =
     (case r of
        Inl e \<Rightarrow> Inl e
      | Inr cs \<Rightarrow>
          Inr (map (\<lambda>c. map (\<lambda>a. (mouseSelected a, is_underline styles (ann_style a), depth a))
                          (token_annotations c)) cs))"

section \<open>The sort of the spans\<close>

lemma compare_spans_total: "\<not> compare_spans x y \<le> 0 \<Longrightarrow> compare_spans y x \<le> 0"
  by (auto simp: compare_spans_def split: if_splits)

lemma compare_spans_trans:
  "compare_spans x y \<le> 0 \<Longrightarrow> compare_spans y z \<le> 0 \<Longrightarrow> compare_spans x z \<le> 0"
  by (auto simp: compare_spans_def split: if_splits)

lemma mset_insert_span: "mset (insert_span x xs) = add_mset x (mset xs)"
  by (induction xs) auto

lemma mset_sort_spans: "mset (sort_spans xs) = mset xs"
  by (induction xs) (auto simp: sort_spans_def mset_insert_span)

lemma set_insert_span: "set (insert_span x xs) = insert x (set xs)"
  by (induction xs) auto

lemma set_sort_spans: "set (sort_spans xs) = set xs"
  by (induction xs) (auto simp: sort_spans_def set_insert_span)

lemma sorted_insert_span:
  "sorted_wrt (\<lambda>a b. compare_spans a b \<le> 0) xs
   \<Longrightarrow> sorted_wrt (\<lambda>a b. compare_spans a b \<le> 0) (insert_span x xs)"
proof (induction xs)
  case Nil
  then show ?case by simp
next
  case (Cons y ys)
  show ?case
  proof (cases "compare_spans x y \<le> 0")
    case True
    with Cons.prems show ?thesis
      by (auto intro: compare_spans_trans)
  next
    case False
    then have "compare_spans y x \<le> 0"
      by (rule compare_spans_total)
    with False Cons show ?thesis
      by (auto simp: set_insert_span)
  qed
qed

lemma sorted_sort_spans: "sorted_wrt (\<lambda>a b. compare_spans a b \<le> 0) (sort_spans xs)"
  by (induction xs) (auto simp: sort_spans_def sorted_insert_span)

lemma insert_span_sorted:
  "\<forall>y \<in> set xs. compare_spans x y \<le> 0 \<Longrightarrow> insert_span x xs = x # xs"
  by (cases xs) auto

lemma sort_spans_sorted:
  "sorted_wrt (\<lambda>a b. compare_spans a b \<le> 0) xs \<Longrightarrow> sort_spans xs = xs"
  by (induction xs) (auto simp: sort_spans_def insert_span_sorted)

section \<open>The caller's array\<close>

text \<open>
  Claim C9, as the code has it. \<open>tokenize\<close> leaves every span object as it was (the
  field \<open>text\<close> goes to copies), and the caller's array holds the same span objects
  after the call; but \<open>spans.sort\<close> sorts that array in place, so they stand in the
  order of the comparator (mouse-selected first, then ascending \<open>begin\<close>, then
  descending \<open>end\<close>). The order is the caller's own when the array was already sorted.
\<close>

theorem tokenize_sorts_caller_array:
  "mset (fst (tokenize spans text styles)) = mset spans
   \<and> sorted_wrt (\<lambda>a b. compare_spans a b \<le> 0) (fst (tokenize spans text styles))
   \<and> (sorted_wrt (\<lambda>a b. compare_spans a b \<le> 0) spans
        \<longrightarrow> fst (tokenize spans text styles) = spans)"
  by (simp add: tokenize_def Let_def mset_sort_spans sorted_sort_spans sort_spans_sorted)

theorem tokenize_sorts_caller_array_witness:
  "sorted_wrt (\<lambda>a b. compare_spans a b \<le> 0) [mk_span 0 2 ''b'' False, mk_span 5 6 ''b'' False]
   \<and> fst (tokenize [mk_span 0 2 ''b'' False, mk_span 5 6 ''b'' False] example_text example_styles)
       = [mk_span 0 2 ''b'' False, mk_span 5 6 ''b'' False]"
proof -
  have h: "sorted_wrt (\<lambda>a b. compare_spans a b \<le> 0)
             [mk_span 0 2 ''b'' False, mk_span 5 6 ''b'' False]"
    by (simp add: compare_spans_def mk_span_def)
  with tokenize_sorts_caller_array
         [of "[mk_span 0 2 ''b'' False, mk_span 5 6 ''b'' False]" example_text example_styles]
  show ?thesis by blast
qed

text \<open>
  An array given as \<open>[{begin: 5, end: 6}, {begin: 0, end: 2}]\<close> is not in the same
  order after the call.
\<close>

theorem tokenize_reorders_caller_array:
  "fst (tokenize [mk_span 5 6 ''b'' False, mk_span 0 2 ''b'' False] example_text example_styles)
     \<noteq> [mk_span 5 6 ''b'' False, mk_span 0 2 ''b'' False]"
  by code_simp

section \<open>Underline reversal on concrete inputs\<close>

text \<open>
  Claim C1. Three underline spans \<open>[0,2)\<close>, \<open>[0,1)\<close>, \<open>[3,4)\<close> over \<open>abcdefghij\<close>. The
  first cluster holds depths 0 and 1 and is rewritten to -2 and -1. The second cluster
  holds the one span \<open>[3,4)\<close> with depth 0, so its maximum is 0 and the claim gives
  \<open>0 - 0 - 1 = -1\<close>; the code subtracts the maximum of the first cluster again and
  gives -2, since \<open>underlineClusterDepth\<close> is never set back to 0.
\<close>

theorem flush_subtracts_earlier_cluster_depth:
  "annotation_depths
     (styled_text_chunks
        [mk_span 0 2 ''u'' False, mk_span 0 1 ''u'' False, mk_span 3 4 ''u'' False]
        example_text example_styles)
   = Inr [[Some (- 1), Some (- 2)], [Some (- 2)], [], [Some (- 2)], []]"
  by code_simp

text \<open>
  Claim C2. A span whose style is an underline with \<open>autoNestingLayout: false\<close>, and a
  mouse-selected span with an underline style: \<open>zIndex\<close> stays \<open>null\<close>, but the
  reversal computes \<open>null - 0 - 1\<close> and leaves the depth -1.
\<close>

theorem opt_out_underline_depth_not_null:
  "annotation_depths
     (styled_text_chunks [mk_span 0 2 ''v'' False] example_text example_styles)
   = Inr [[Some (- 1)], []]
   \<and> annotation_zIndices
     (styled_text_chunks [mk_span 0 2 ''v'' False] example_text example_styles)
   = Inr [[None], []]
   \<and> annotation_depths
     (styled_text_chunks [mk_span 0 2 ''u'' True] example_text example_styles)
   = Inr [[Some (- 1)], []]"
  by code_simp

text \<open>
  Claim C4. A mouse-selected underline span \<open>[0,4)\<close>, a mouse-selected span \<open>[6,8)\<close>
  and a box span \<open>[0,2)\<close>. The span \<open>[0,4)\<close> lies on the chunks \<open>[0,2)\<close> and \<open>[2,4)\<close>;
  both are reversed when \<open>[6,8)\<close> opens a cluster, and the chunk \<open>[0,2)\<close> is reversed
  once more at the end, because the box span put it back into the cluster. The span's
  two annotations end with the depths -2 and -1.
\<close>

theorem mouse_selected_underline_depths_differ:
  "annotation_depths
     (styled_text_chunks
        [mk_span 0 4 ''u'' True, mk_span 6 8 ''b'' True, mk_span 0 2 ''b'' False]
        example_text example_styles)
   = Inr [[Some 0, Some (- 2)], [Some (- 1)], [], [None], []]"
  by code_simp

section \<open>Chunk boundaries\<close>

lemma set_set_dedup: "set (set_dedup xs) = set xs"
  by (induction xs rule: set_dedup.induct) auto

lemma distinct_set_dedup: "distinct (set_dedup xs)"
  by (induction xs rule: set_dedup.induct) (auto simp: set_set_dedup)

lemma set_span_indices: "set (span_indices spans) = span_begin ` set spans \<union> span_end ` set spans"
  by (induction spans) (auto simp: span_indices_def)

lemma set_chunk_indices:
  "set (chunk_indices spans text)
     = span_begin ` set spans \<union> span_end ` set spans \<union> {0, int (length text)}"
  by (auto simp: chunk_indices_def set_set_dedup set_span_indices)

lemma sorted_chunk_indices: "sorted (chunk_indices spans text)"
  by (simp add: chunk_indices_def)

lemma distinct_chunk_indices: "distinct (chunk_indices spans text)"
  by (simp add: chunk_indices_def distinct_set_dedup)

lemma length_chunks_between: "length (chunks_between idx t) = length idx - 1"
  by (induction idx t rule: chunks_between.induct) auto

lemma chunk_indices_nonempty: "chunk_indices spans text \<noteq> []"
proof -
  have "0 \<in> set (chunk_indices spans text)"
    by (simp add: set_chunk_indices)
  then show ?thesis by auto
qed

section \<open>Tokens of a slice\<close>

lemma concat_match_tokens: "concat (match_tokens s) = s"
  by (induction s rule: match_tokens.induct) simp_all

lemma concat_filter_nonempty: "concat (filter (\<lambda>t. t \<noteq> []) xs) = concat xs"
  by (induction xs) auto

lemma concat_chunk_tokens: "concat (chunk_tokens s) = s"
  by (simp add: chunk_tokens_def concat_filter_nonempty concat_match_tokens)

lemma js_slice_in_range:
  "0 \<le> b \<Longrightarrow> b \<le> e \<Longrightarrow> e \<le> int (length s)
   \<Longrightarrow> js_slice s b e = take (nat e - nat b) (drop (nat b) s)"
  by (simp add: js_slice_def Let_def min_def nat_diff_distrib)

lemma js_slice_append:
  assumes "0 \<le> b" "b \<le> e" "e \<le> f" "f \<le> int (length s)"
  shows "js_slice s b e @ js_slice s e f = js_slice s b f"
proof -
  have "take (nat e - nat b) (drop (nat b) s) @ take (nat f - nat e) (drop (nat e) s)
        = take (nat f - nat b) (drop (nat b) s)"
  proof -
    have e: "nat e = nat b + (nat e - nat b)" using assms by simp
    have f: "nat f - nat b = (nat e - nat b) + (nat f - nat e)" using assms by simp
    have "drop (nat e) s = drop (nat e - nat b) (drop (nat b) s)"
      using e by (metis add.commute drop_drop)
    then show ?thesis
      by (simp add: f take_add)
  qed
  with assms show ?thesis
    by (simp add: js_slice_in_range)
qed

lemma concat_tokens_chunks_between:
  "sorted idx \<Longrightarrow> idx \<noteq> [] \<Longrightarrow> 0 \<le> hd idx \<Longrightarrow> last idx \<le> int (length t)
   \<Longrightarrow> concat (concat (map tokens (chunks_between idx t))) = js_slice t (hd idx) (last idx)"
proof (induction idx t rule: chunks_between.induct)
  case (1 b e rest t)
  have le: "b \<le> e" "e \<le> last (e # rest)"
    using "1.prems"(1) by auto
  have "concat (concat (map tokens (chunks_between (e # rest) t)))
        = js_slice t (hd (e # rest)) (last (e # rest))"
    by (rule "1.IH") (use "1.prems" le in auto)
  then have "concat (concat (map tokens (chunks_between (e # rest) t)))
        = js_slice t e (last (e # rest))"
    by simp
  moreover have "js_slice t b e @ js_slice t e (last (e # rest))
        = js_slice t b (last (e # rest))"
    by (rule js_slice_append) (use "1.prems" le in auto)
  ultimately show ?case
    by (simp add: concat_chunk_tokens)
qed (simp_all add: js_slice_def)

lemma js_slice_whole: "js_slice s 0 (int (length s)) = s"
  by (simp add: js_slice_def)

lemma hd_sorted_least: "sorted xs \<Longrightarrow> x \<in> set xs \<Longrightarrow> hd xs \<le> (x::int)"
  by (cases xs) auto

lemma last_sorted_greatest: "sorted xs \<Longrightarrow> x \<in> set xs \<Longrightarrow> (x::int) \<le> last xs"
  by (induction xs) (auto split: if_splits)

text \<open>
  Claim C6. When every span satisfies \<open>0 \<le> begin \<le> end \<le> text.length\<close>, the tokens of
  all chunks of \<open>chunkText\<close>, concatenated in order, are the text, and the number of
  chunks is the number of distinct boundary values (the spans' begins and ends, 0 and
  \<open>text.length\<close>) minus one.
\<close>

theorem chunkText_round_trip:
  assumes "\<forall>s \<in> set spans. 0 \<le> span_begin s \<and> span_begin s \<le> span_end s
             \<and> span_end s \<le> int (length text)"
  shows "concat (concat (map tokens (chunkText spans text))) = text
     \<and> int (length (chunkText spans text))
         = int (card (span_begin ` set spans \<union> span_end ` set spans \<union> {0, int (length text)})) - 1"
proof -
  let ?idx = "chunk_indices spans text"
  have srt: "sorted ?idx" by (rule sorted_chunk_indices)
  have ne: "?idx \<noteq> []" by (rule chunk_indices_nonempty)
  have range: "\<forall>x \<in> set ?idx. 0 \<le> x \<and> x \<le> int (length text)"
    using assms by (auto simp: set_chunk_indices)
  have "hd ?idx \<le> 0"
    using srt by (rule hd_sorted_least) (simp add: set_chunk_indices)
  moreover have "0 \<le> hd ?idx"
    using range ne by simp
  ultimately have hd0: "hd ?idx = 0" by simp
  have "int (length text) \<le> last ?idx"
    using srt by (rule last_sorted_greatest) (simp add: set_chunk_indices)
  moreover have "last ?idx \<le> int (length text)"
    using range ne by simp
  ultimately have lastn: "last ?idx = int (length text)" by simp
  have "concat (concat (map tokens (chunks_between ?idx text))) = js_slice text (hd ?idx) (last ?idx)"
    by (rule concat_tokens_chunks_between) (use srt ne hd0 lastn in auto)
  then have round: "concat (concat (map tokens (chunkText spans text))) = text"
    by (simp add: chunkText_def hd0 lastn js_slice_whole)
  have "length ?idx = card (set ?idx)"
    using distinct_chunk_indices by (simp add: distinct_card)
  moreover have "0 < length ?idx" using ne by simp
  ultimately have "int (length (chunkText spans text)) = int (card (set ?idx)) - 1"
    by (simp add: chunkText_def length_chunks_between)
  with round show ?thesis
    by (simp add: set_chunk_indices)
qed

theorem chunkText_round_trip_witness:
  "concat (concat (map tokens
      (chunkText [mk_span 0 2 ''b'' False, mk_span 1 5 ''u'' False] example_text)))
   = example_text"
proof -
  have h: "\<forall>s \<in> set [mk_span 0 2 ''b'' False, mk_span 1 5 ''u'' False].
      0 \<le> span_begin s \<and> span_begin s \<le> span_end s \<and> span_end s \<le> int (length example_text)"
    by (simp add: mk_span_def example_text_def)
  from chunkText_round_trip [OF h] show ?thesis
    by blast
qed

section \<open>The loop over the chunks\<close>

lemma compute_depths_Some:
  "compute_depths styles sty anns = Inr (nd, nz) \<Longrightarrow> nd \<noteq> None \<and> nz \<noteq> None"
  by (auto simp: compute_depths_def split: sum.splits if_splits prod.splits)

lemma ucd_after_Nil: "ucd_after styles s [] nd ucd = ucd"
  by (simp add: ucd_after_def)

lemma ucd_after_Cons:
  "ucd_after styles s (c # cs) nd ucd =
     ucd_after styles s cs nd
       (if overlaps c s \<and> is_underline styles (span_style s) \<and> ucd < to_number nd
        then to_number nd else ucd)"
  by (auto simp: ucd_after_def)

lemma style_span_chunks_settled:
  "nd \<noteq> None \<or> span_mouseSelected s \<or> \<not> auto_nesting styles (span_style s)
   \<Longrightarrow> style_span_chunks styles s i cs (nd, nz, cl, ucd)
       = Inr (map (add_annotation s nd nz) cs, cluster_after s i cs cl,
              ucd_after styles s cs nd ucd)"
proof (induction cs arbitrary: i cl ucd)
  case Nil
  then show ?case by (simp add: ucd_after_Nil)
next
  case (Cons c cs)
  from Cons.prems
  have settled: "\<not> (nd = None \<and> \<not> span_mouseSelected s \<and> auto_nesting styles (span_style s))"
    by auto
  show ?case
  proof (cases "overlaps c s")
    case True
    then show ?thesis
      by (simp add: settled Cons.IH [OF Cons.prems] add_annotation_def ucd_after_Cons)
  next
    case False
    then show ?thesis
      by (simp add: Cons.IH [OF Cons.prems] add_annotation_def ucd_after_Cons)
  qed
qed

lemma map_add_annotation_no_overlap:
  "\<forall>c \<in> set cs. \<not> overlaps c s \<Longrightarrow> map (add_annotation s nd nz) cs = cs"
  by (induction cs) (auto simp: add_annotation_def)

lemma cluster_after_no_overlap:
  "\<forall>c \<in> set cs. \<not> overlaps c s \<Longrightarrow> cluster_after s i cs cl = cl"
  by (induction cs arbitrary: i) auto

lemma find_None_no_overlap: "find P cs = None \<longleftrightarrow> (\<forall>c \<in> set cs. \<not> P c)"
  by (induction cs) auto

lemma style_span_chunks_auto:
  "\<not> span_mouseSelected s \<Longrightarrow> auto_nesting styles (span_style s)
   \<Longrightarrow> style_span_chunks styles s i cs (None, nz, cl, ucd)
       = (case find (\<lambda>c. overlaps c s) cs of
            None \<Rightarrow> Inr (cs, cl, ucd)
          | Some c0 \<Rightarrow>
              (case compute_depths styles (span_style s) (token_annotations c0) of
                 Inl e \<Rightarrow> Inl e
               | Inr (nd, nz') \<Rightarrow>
                   Inr (map (add_annotation s nd nz') cs, cluster_after s i cs cl,
                        ucd_after styles s cs nd ucd)))"
proof (induction cs arbitrary: i cl ucd)
  case Nil
  then show ?case by simp
next
  case (Cons c cs)
  show ?case
  proof (cases "overlaps c s")
    case False
    with Cons.prems show ?thesis
      by (simp add: Cons.IH [OF Cons.prems] add_annotation_def ucd_after_Cons
          split: option.splits sum.splits prod.splits)
  next
    case True
    show ?thesis
    proof (cases "compute_depths styles (span_style s) (token_annotations c)")
      case (Inl e)
      with True Cons.prems show ?thesis by simp
    next
      case (Inr r)
      obtain nd nz' where r: "r = (nd, nz')" by (cases r)
      with Inr have "nd \<noteq> None" by (auto dest: compute_depths_Some)
      then have rest: "\<And>i cl ucd. style_span_chunks styles s i cs (nd, nz', cl, ucd)
          = Inr (map (add_annotation s nd nz') cs, cluster_after s i cs cl,
                 ucd_after styles s cs nd ucd)"
        by (intro style_span_chunks_settled) simp
      from True Cons.prems Inr r show ?thesis
        by (simp add: rest add_annotation_def ucd_after_Cons)
    qed
  qed
qed

lemma style_span_chunks_eq:
  "style_span_chunks styles s i cs (None, None, cl, ucd)
     = (case span_depths styles s cs of
          Inl e \<Rightarrow> Inl e
        | Inr (nd, nz) \<Rightarrow>
            Inr (map (add_annotation s nd nz) cs, cluster_after s i cs cl,
                 ucd_after styles s cs nd ucd))"
proof (cases "\<not> span_mouseSelected s \<and> auto_nesting styles (span_style s)")
  case True
  show ?thesis
  proof (cases "find (\<lambda>c. overlaps c s) cs")
    case None
    then have "\<forall>c \<in> set cs. \<not> overlaps c s"
      by (simp add: find_None_no_overlap)
    with True None show ?thesis
      by (simp add: style_span_chunks_auto span_depths_def map_add_annotation_no_overlap
          cluster_after_no_overlap ucd_after_def)
  next
    case (Some c0)
    with True show ?thesis
      by (simp add: style_span_chunks_auto span_depths_def)
  qed
next
  case False
  then show ?thesis
    by (auto simp: style_span_chunks_settled span_depths_def)
qed

lemma set_cluster_add: "set (cluster_add i cl) = insert i (set cl)"
  by (auto simp: cluster_add_def)

lemma distinct_cluster_add: "distinct cl \<Longrightarrow> distinct (cluster_add i cl)"
  by (auto simp: cluster_add_def)

lemma set_cluster_after:
  "set (cluster_after s i cs cl) = set cl \<union> {i + k | k. k < length cs \<and> overlaps (cs ! k) s}"
proof (induction cs arbitrary: i cl)
  case Nil
  then show ?case by simp
next
  case (Cons c cs)
  have split: "{i + k | k. k < length (c # cs) \<and> overlaps ((c # cs) ! k) s}
      = (if overlaps c s then {i} else {}) \<union> {Suc i + k | k. k < length cs \<and> overlaps (cs ! k) s}"
  proof -
    have "\<And>k. k < length (c # cs) \<and> overlaps ((c # cs) ! k) s
        \<longleftrightarrow> (k = 0 \<and> overlaps c s) \<or> (\<exists>j. k = Suc j \<and> j < length cs \<and> overlaps (cs ! j) s)"
      by (case_tac k) auto
    then show ?thesis by (auto split: if_splits)
  qed
  show ?case
    unfolding split by (auto simp: Cons.IH set_cluster_add)
qed

lemma distinct_cluster_after: "distinct cl \<Longrightarrow> distinct (cluster_after s i cs cl)"
  by (induction cs arbitrary: i cl) (auto simp: distinct_cluster_add)

section \<open>The reversal, chunk by chunk\<close>

lemma length_fold_update: "length (fold (\<lambda>i cs. cs[i := f (cs ! i)]) is cs) = length cs"
  by (induction "is" arbitrary: cs) auto

lemma nth_fold_update:
  "distinct is \<Longrightarrow> k < length cs
   \<Longrightarrow> fold (\<lambda>i cs. cs[i := f (cs ! i)]) is cs ! k = (if k \<in> set is then f (cs ! k) else cs ! k)"
proof (induction "is" arbitrary: cs)
  case Nil
  then show ?case by simp
next
  case (Cons i "is")
  show ?case
  proof (cases "i = k")
    case True
    with Cons show ?thesis by simp
  next
    case False
    with Cons show ?thesis by simp
  qed
qed

lemma length_reverse: "length (text_chunks (reverseUnderlineClusterDepths styles st)) = length (text_chunks st)"
  by (simp add: reverseUnderlineClusterDepths_def length_fold_update)

lemma nth_reverse:
  "distinct (underlineCluster st) \<Longrightarrow> k < length (text_chunks st)
   \<Longrightarrow> text_chunks (reverseUnderlineClusterDepths styles st) ! k
       = (if k \<in> set (underlineCluster st)
          then reverse_chunk styles (underlineClusterDepth st) (text_chunks st ! k)
          else text_chunks st ! k)"
  by (simp add: reverseUnderlineClusterDepths_def nth_fold_update)

lemma reverse_other_fields:
  "underlineCluster (reverseUnderlineClusterDepths styles st) = underlineCluster st"
  "underlineClusterDepth (reverseUnderlineClusterDepths styles st) = underlineClusterDepth st"
  "rightMostOffset (reverseUnderlineClusterDepths styles st) = rightMostOffset st"
  by (simp_all add: reverseUnderlineClusterDepths_def)

section \<open>The sign of the depths\<close>

lemma first_missing_nonneg: "0 \<le> first_missing arr"
  by (simp add: first_missing_def findIndex_isNot_def Let_def)

lemma compute_depths_nonneg:
  "compute_depths styles sty anns = Inr (nd, nz) \<Longrightarrow> 0 \<le> to_number nd"
  by (auto simp: compute_depths_def to_number_def first_missing_nonneg
      split: sum.splits if_splits prod.splits)

lemma span_depths_nonneg: "span_depths styles s cs = Inr (nd, nz) \<Longrightarrow> 0 \<le> to_number nd"
  by (auto simp: span_depths_def to_number_def dest: compute_depths_nonneg
      split: if_splits option.splits)

lemma settled_reverse_chunk:
  "0 \<le> ucd \<Longrightarrow> open_chunk styles ucd c \<Longrightarrow> settled_chunk styles (reverse_chunk styles ucd c)"
  by (auto simp: settled_chunk_def open_chunk_def reverse_chunk_def reverse_annotation_def
      sign_ok_def split: option.splits if_splits)

lemma open_settled: "0 \<le> ucd \<Longrightarrow> settled_chunk styles c \<Longrightarrow> open_chunk styles ucd c"
  by (fastforce simp: settled_chunk_def open_chunk_def sign_ok_def to_number_def
      split: option.splits if_splits)

lemma open_chunk_mono: "open_chunk styles ucd c \<Longrightarrow> ucd \<le> ucd' \<Longrightarrow> open_chunk styles ucd' c"
  by (fastforce simp: open_chunk_def split: if_splits)

lemma open_add_annotation:
  assumes "open_chunk styles ucd c"
    and "is_underline styles (span_style s) \<Longrightarrow> to_number nd \<le> ucd"
    and "0 \<le> to_number nd"
  shows "open_chunk styles ucd (add_annotation s nd nz c)"
  using assms
  by (auto simp: open_chunk_def add_annotation_def make_annotation_def to_number_def)

lemma sign_invariant_init: "sign_invariant styles (init_state (chunkText spans t))"
proof -
  have "\<And>idx. \<forall>c \<in> set (chunks_between idx t). token_annotations c = []"
    subgoal for idx by (induction idx t rule: chunks_between.induct) auto
    done
  then have "\<forall>c \<in> set (chunkText spans t). token_annotations c = []"
    by (simp add: chunkText_def)
  then show ?thesis
    by (simp add: sign_invariant_def init_state_def open_chunk_def settled_chunk_def)
qed

lemma sign_invariant_flush:
  assumes "sign_invariant styles st"
  shows "\<forall>k < length (text_chunks st).
           settled_chunk styles (text_chunks (reverseUnderlineClusterDepths styles st) ! k)"
  using assms
  by (auto simp: sign_invariant_def nth_reverse settled_reverse_chunk)

lemma sign_invariant_cluster_boundary:
  assumes "sign_invariant styles st"
  shows "sign_invariant styles (cluster_boundary styles s st)"
proof (cases "span_begin s \<ge> rightMostOffset st")
  case True
  from assms have "0 \<le> underlineClusterDepth st"
    by (simp add: sign_invariant_def)
  with sign_invariant_flush [OF assms] True show ?thesis
    by (simp add: cluster_boundary_def sign_invariant_def length_reverse reverse_other_fields
        open_settled)
next
  case False
  with assms show ?thesis
    by (simp add: cluster_boundary_def sign_invariant_def)
qed

lemma sign_invariant_add:
  assumes inv: "sign_invariant styles st"
    and nd: "0 \<le> to_number nd"
  shows "sign_invariant styles
           (st\<lparr>text_chunks := map (add_annotation s nd nz) (text_chunks st),
               underlineCluster := cluster_after s 0 (text_chunks st) (underlineCluster st),
               underlineClusterDepth :=
                 ucd_after styles s (text_chunks st) nd (underlineClusterDepth st)\<rparr>)"
proof -
  let ?cs = "text_chunks st"
  let ?ucd = "underlineClusterDepth st"
  let ?ucd' = "ucd_after styles s ?cs nd ?ucd"
  from inv have ucd0: "0 \<le> ?ucd" and dist: "distinct (underlineCluster st)"
    and opn: "\<And>k. k < length ?cs \<Longrightarrow> open_chunk styles ?ucd (?cs ! k)"
    and stl: "\<And>k. k < length ?cs \<Longrightarrow> k \<notin> set (underlineCluster st)
                \<Longrightarrow> settled_chunk styles (?cs ! k)"
    by (auto simp: sign_invariant_def)
  have le: "?ucd \<le> ?ucd'"
    by (simp add: ucd_after_def)
  have "open_chunk styles ?ucd' (add_annotation s nd nz (?cs ! k))
        \<and> (k \<notin> set (cluster_after s 0 ?cs (underlineCluster st))
            \<longrightarrow> settled_chunk styles (add_annotation s nd nz (?cs ! k)))"
    if k: "k < length ?cs" for k
  proof (cases "overlaps (?cs ! k) s")
    case True
    then have ex: "\<exists>c \<in> set ?cs. overlaps c s"
      using nth_mem [OF k] by blast
    have "is_underline styles (span_style s) \<Longrightarrow> to_number nd \<le> ?ucd'"
      using ex by (simp add: ucd_after_def)
    then have "open_chunk styles ?ucd' (add_annotation s nd nz (?cs ! k))"
      using open_chunk_mono [OF opn [OF k] le] nd by (intro open_add_annotation) auto
    moreover have "k \<in> set (cluster_after s 0 ?cs (underlineCluster st))"
      using True k by (auto simp: set_cluster_after)
    ultimately show ?thesis by simp
  next
    case False
    then have same: "add_annotation s nd nz (?cs ! k) = ?cs ! k"
      by (simp add: add_annotation_def)
    have "k \<notin> set (cluster_after s 0 ?cs (underlineCluster st))
          \<Longrightarrow> k \<notin> set (underlineCluster st)"
      by (simp add: set_cluster_after)
    with same open_chunk_mono [OF opn [OF k] le] stl [OF k] show ?thesis
      by auto
  qed
  moreover have "0 \<le> ?ucd'" using ucd0 le by simp
  moreover have "distinct (cluster_after s 0 ?cs (underlineCluster st))"
    using dist by (rule distinct_cluster_after)
  ultimately show ?thesis
    by (simp add: sign_invariant_def)
qed

lemma style_span_Inr:
  "style_span styles s st = Inr st'
   \<Longrightarrow> \<exists>nd nz. span_depths styles s (text_chunks (cluster_boundary styles s st)) = Inr (nd, nz)
        \<and> st' = (cluster_boundary styles s st)
             \<lparr>text_chunks := map (add_annotation s nd nz)
                               (text_chunks (cluster_boundary styles s st)),
              underlineCluster := cluster_after s 0 (text_chunks (cluster_boundary styles s st))
                                    (underlineCluster (cluster_boundary styles s st)),
              underlineClusterDepth :=
                ucd_after styles s (text_chunks (cluster_boundary styles s st)) nd
                  (underlineClusterDepth (cluster_boundary styles s st))\<rparr>"
  by (auto simp: style_span_def Let_def style_span_chunks_eq split: sum.splits prod.splits)

lemma sign_invariant_style_span:
  assumes "sign_invariant styles st" and "style_span styles s st = Inr st'"
  shows "sign_invariant styles st'"
proof -
  from style_span_Inr [OF assms(2)] obtain nd nz
    where d: "span_depths styles s (text_chunks (cluster_boundary styles s st)) = Inr (nd, nz)"
      and st': "st' = (cluster_boundary styles s st)
             \<lparr>text_chunks := map (add_annotation s nd nz)
                               (text_chunks (cluster_boundary styles s st)),
              underlineCluster := cluster_after s 0 (text_chunks (cluster_boundary styles s st))
                                    (underlineCluster (cluster_boundary styles s st)),
              underlineClusterDepth :=
                ucd_after styles s (text_chunks (cluster_boundary styles s st)) nd
                  (underlineClusterDepth (cluster_boundary styles s st))\<rparr>"
    by blast
  show ?thesis
    unfolding st'
    by (rule sign_invariant_add [OF sign_invariant_cluster_boundary [OF assms(1)]
          span_depths_nonneg [OF d]])
qed

lemma sign_invariant_style_spans:
  "sign_invariant styles st \<Longrightarrow> style_spans styles ss st = Inr st' \<Longrightarrow> sign_invariant styles st'"
proof (induction ss arbitrary: st)
  case Nil
  then show ?case by simp
next
  case (Cons s ss)
  then show ?case
    by (auto split: sum.splits dest: sign_invariant_style_span)
qed

lemma in_set_sign_ok:
  assumes "styled_text_chunks spans t styles = Inr cs"
  shows "\<forall>c \<in> set cs. \<forall>a \<in> set (token_annotations c). sign_ok styles a"
proof -
  let ?spans = "map (with_text t) (sort_spans spans)"
  from assms obtain st where run: "style_spans styles ?spans (init_state (chunkText ?spans t)) = Inr st"
    and cs: "cs = text_chunks (reverseUnderlineClusterDepths styles st)"
    by (auto simp: styled_text_chunks_def styleTextChunks_def Let_def split: sum.splits)
  have inv: "sign_invariant styles st"
    using sign_invariant_init run by (rule sign_invariant_style_spans)
  have "settled_chunk styles (cs ! k)" if "k < length cs" for k
  proof (cases "k \<in> set (underlineCluster st)")
    case True
    with inv that show ?thesis
      by (simp add: cs length_reverse nth_reverse sign_invariant_def settled_reverse_chunk)
  next
    case False
    with inv that show ?thesis
      by (simp add: cs length_reverse nth_reverse sign_invariant_def)
  qed
  then have "\<forall>c \<in> set cs. settled_chunk styles c"
    by (metis in_set_conv_nth)
  then show ?thesis
    by (simp add: settled_chunk_def)
qed

text \<open>
  Claim C5. In the chunks that \<open>tokenize\<close> hands to the line splitter, every annotation
  with a non-null depth has a negative depth when its style's shape is \<open>underline\<close>
  and a non-negative depth otherwise.
\<close>

theorem depth_signs:
  assumes "styled_text_chunks spans text styles = Inr cs"
    and "c \<in> set cs"
    and "a \<in> set (token_annotations c)"
    and "depth a = Some x"
  shows "(is_underline styles (ann_style a) \<longrightarrow> x < 0)
       \<and> (\<not> is_underline styles (ann_style a) \<longrightarrow> 0 \<le> x)"
proof -
  from in_set_sign_ok [OF assms(1)] assms(2,3) have "sign_ok styles a"
    by blast
  with assms(4) show ?thesis
    by (simp add: sign_ok_def split: if_splits)
qed

theorem depth_signs_witness:
  "\<exists>cs c a. styled_text_chunks [mk_span 0 2 ''u'' False, mk_span 1 3 ''b'' False]
               example_text example_styles = Inr cs
     \<and> c \<in> set cs \<and> a \<in> set (token_annotations c) \<and> depth a = Some (- 1)
     \<and> is_underline example_styles (ann_style a)"
proof -
  let ?r = "styled_text_chunks [mk_span 0 2 ''u'' False, mk_span 1 3 ''b'' False]
              example_text example_styles"
  have ev: "case ?r of
              Inl e \<Rightarrow> False
            | Inr cs \<Rightarrow> cs \<noteq> [] \<and> token_annotations (hd cs) \<noteq> []
                \<and> depth (hd (token_annotations (hd cs))) = Some (- 1)"
    by code_simp
  then obtain cs where h: "?r = Inr cs" and ne: "cs \<noteq> []" "token_annotations (hd cs) \<noteq> []"
    and d: "depth (hd (token_annotations (hd cs))) = Some (- 1)"
    by (auto split: sum.splits)
  have c: "hd cs \<in> set cs" and a: "hd (token_annotations (hd cs)) \<in> set (token_annotations (hd cs))"
    using ne by simp_all
  from depth_signs [OF h c a d]
  have "is_underline example_styles (ann_style (hd (token_annotations (hd cs))))"
    by auto
  with h c a d show ?thesis by blast
qed

section \<open>The geometry of the chunks of chunkText\<close>

lemma nth_chunks_between:
  "Suc i < length idx
   \<Longrightarrow> chunk_begin (chunks_between idx t ! i) = idx ! i
     \<and> chunk_end (chunks_between idx t ! i) = idx ! Suc i
     \<and> token_annotations (chunks_between idx t ! i) = []"
proof (induction idx t arbitrary: i rule: chunks_between.induct)
  case (1 b e rest t)
  then show ?case by (cases i) auto
qed simp_all

lemma strict_chunk_indices:
  "i < j \<Longrightarrow> j < length (chunk_indices spans t)
   \<Longrightarrow> chunk_indices spans t ! i < chunk_indices spans t ! j"
proof -
  have "sorted_wrt (<) (chunk_indices spans t)"
    using sorted_chunk_indices distinct_chunk_indices strict_sorted_iff by blast
  then show "i < j \<Longrightarrow> j < length (chunk_indices spans t)
   \<Longrightarrow> chunk_indices spans t ! i < chunk_indices spans t ! j"
    by (simp add: sorted_wrt_iff_nth_less)
qed

lemma length_chunkText: "length (chunkText spans t) = length (chunk_indices spans t) - 1"
  by (simp add: chunkText_def length_chunks_between)

lemma nth_chunkText:
  "i < length (chunkText spans t)
   \<Longrightarrow> chunk_begin (chunkText spans t ! i) = chunk_indices spans t ! i
     \<and> chunk_end (chunkText spans t ! i) = chunk_indices spans t ! Suc i
     \<and> token_annotations (chunkText spans t ! i) = []"
  by (simp add: chunkText_def length_chunks_between nth_chunks_between)

lemma well_chunked_chunkText: "well_chunked (chunkText spans t)"
  by (auto simp: well_chunked_def nth_chunkText length_chunkText strict_chunk_indices)

lemma index_not_inside:
  assumes b: "b \<in> set (chunk_indices spans t)" and i: "Suc i < length (chunk_indices spans t)"
  shows "\<not> (chunk_indices spans t ! i < b \<and> b < chunk_indices spans t ! Suc i)"
proof -
  from b obtain j where j: "j < length (chunk_indices spans t)" "chunk_indices spans t ! j = b"
    by (auto simp: in_set_conv_nth)
  show ?thesis
  proof (cases "j \<le> i")
    case True
    then have "b \<le> chunk_indices spans t ! i"
      using j i strict_chunk_indices [of j i spans t] by (cases "j = i") auto
    then show ?thesis by simp
  next
    case False
    then have "chunk_indices spans t ! Suc i \<le> b"
      using j i strict_chunk_indices [of "Suc i" j spans t] by (cases "j = Suc i") auto
    then show ?thesis by simp
  qed
qed

lemma index_starts_chunk:
  assumes b: "b \<in> set (chunk_indices spans t)" and e: "e \<in> set (chunk_indices spans t)"
    and lt: "b < e"
  shows "\<exists>i < length (chunkText spans t). chunk_begin (chunkText spans t ! i) = b"
proof -
  from b obtain j where j: "j < length (chunk_indices spans t)" "chunk_indices spans t ! j = b"
    by (auto simp: in_set_conv_nth)
  from e obtain k where k: "k < length (chunk_indices spans t)" "chunk_indices spans t ! k = e"
    by (auto simp: in_set_conv_nth)
  have "j < k"
  proof (rule ccontr)
    assume "\<not> j < k"
    then have "k = j \<or> k < j" by auto
    then have "e \<le> b"
      using j k strict_chunk_indices [of k j spans t] by auto
    with lt show False by simp
  qed
  with k have "j < length (chunkText spans t)"
    by (simp add: length_chunkText)
  with j show ?thesis
    by (auto simp: nth_chunkText)
qed

lemma aligned_chunkText:
  assumes "s \<in> set spans"
  shows "aligned (chunkText spans t) s"
proof -
  from assms have b: "span_begin s \<in> set (chunk_indices spans t)"
    and e: "span_end s \<in> set (chunk_indices spans t)"
    by (auto simp: set_chunk_indices)
  show ?thesis
    unfolding aligned_def
  proof (intro conjI allI impI)
    fix i assume "i < length (chunkText spans t)"
    then have i: "Suc i < length (chunk_indices spans t)"
      and nth: "chunk_begin (chunkText spans t ! i) = chunk_indices spans t ! i"
        "chunk_end (chunkText spans t ! i) = chunk_indices spans t ! Suc i"
      by (simp_all add: length_chunkText nth_chunkText)
    show "\<not> (chunk_begin (chunkText spans t ! i) < span_begin s
               \<and> span_begin s < chunk_end (chunkText spans t ! i))"
      unfolding nth by (rule index_not_inside [OF b i])
    show "\<not> (chunk_begin (chunkText spans t ! i) < span_end s
               \<and> span_end s < chunk_end (chunkText spans t ! i))"
      unfolding nth by (rule index_not_inside [OF e i])
  next
    assume "span_begin s < span_end s"
    then show "\<exists>i < length (chunkText spans t). chunk_begin (chunkText spans t ! i) = span_begin s"
      by (rule index_starts_chunk [OF b e])
  qed
qed

section \<open>The layout keeps the geometry\<close>

lemma chunk_bounds_add_annotation [simp]:
  "chunk_bounds (add_annotation s nd nz c) = chunk_bounds c"
  by (simp add: chunk_bounds_def add_annotation_def)

lemma chunk_bounds_reverse_chunk [simp]: "chunk_bounds (reverse_chunk styles ucd c) = chunk_bounds c"
  by (simp add: chunk_bounds_def reverse_chunk_def)

lemma bounds_reverse:
  assumes "distinct (underlineCluster st)"
  shows "map chunk_bounds (text_chunks (reverseUnderlineClusterDepths styles st))
         = map chunk_bounds (text_chunks st)"
  by (rule nth_equalityI) (simp_all add: length_reverse nth_reverse [OF assms])

lemma bounds_cluster_boundary:
  assumes "distinct (underlineCluster st)"
  shows "map chunk_bounds (text_chunks (cluster_boundary styles s st))
         = map chunk_bounds (text_chunks st)"
  by (simp add: cluster_boundary_def bounds_reverse [OF assms])

lemma distinct_cluster_boundary:
  "distinct (underlineCluster st) \<Longrightarrow> distinct (underlineCluster (cluster_boundary styles s st))"
  by (simp add: cluster_boundary_def reverse_other_fields)

lemma style_span_bounds:
  assumes "distinct (underlineCluster st)" and "style_span styles s st = Inr st'"
  shows "map chunk_bounds (text_chunks st') = map chunk_bounds (text_chunks st)
       \<and> distinct (underlineCluster st')"
proof -
  from style_span_Inr [OF assms(2)] obtain nd nz
    where st': "st' = (cluster_boundary styles s st)
             \<lparr>text_chunks := map (add_annotation s nd nz)
                               (text_chunks (cluster_boundary styles s st)),
              underlineCluster := cluster_after s 0 (text_chunks (cluster_boundary styles s st))
                                    (underlineCluster (cluster_boundary styles s st)),
              underlineClusterDepth :=
                ucd_after styles s (text_chunks (cluster_boundary styles s st)) nd
                  (underlineClusterDepth (cluster_boundary styles s st))\<rparr>"
    by blast
  show ?thesis
    unfolding st'
    using bounds_cluster_boundary [OF assms(1), of styles s]
      distinct_cluster_after [OF distinct_cluster_boundary [OF assms(1)]]
    by (simp add: comp_def)
qed

lemma bounds_nth:
  "map chunk_bounds cs' = map chunk_bounds cs \<Longrightarrow> i < length cs
   \<Longrightarrow> chunk_begin (cs' ! i) = chunk_begin (cs ! i) \<and> chunk_end (cs' ! i) = chunk_end (cs ! i)"
proof -
  assume eq: "map chunk_bounds cs' = map chunk_bounds cs" and i: "i < length cs"
  from eq have len: "length cs' = length cs"
    by (rule map_eq_imp_length_eq)
  from eq have "map chunk_bounds cs' ! i = map chunk_bounds cs ! i" by simp
  with i len show ?thesis
    by (simp add: chunk_bounds_def)
qed

lemma well_chunked_bounds:
  assumes "map chunk_bounds cs' = map chunk_bounds cs"
  shows "well_chunked cs' = well_chunked cs"
proof -
  have len: "length cs' = length cs"
    using assms by (rule map_eq_imp_length_eq)
  show ?thesis
    unfolding well_chunked_def len
    using bounds_nth [OF assms] by (metis Suc_lessD)
qed

lemma aligned_bounds:
  assumes "map chunk_bounds cs' = map chunk_bounds cs"
  shows "aligned cs' s = aligned cs s"
proof -
  have len: "length cs' = length cs"
    using assms by (rule map_eq_imp_length_eq)
  show ?thesis
    unfolding aligned_def len
    using bounds_nth [OF assms] by (simp cong: conj_cong)
qed

lemma overlaps_bounds: "chunk_bounds c' = chunk_bounds c \<Longrightarrow> overlaps c' s = overlaps c s"
  by (simp add: chunk_bounds_def overlaps_def)

lemma aligned_overlap_nonempty:
  assumes "well_chunked cs" "aligned cs s" "i < length cs" "overlaps (cs ! i) s"
  shows "span_begin s < span_end s \<and> span_begin s \<le> chunk_begin (cs ! i)
       \<and> chunk_end (cs ! i) \<le> span_end s"
proof -
  from assms(2,3)
  have a: "\<not> (chunk_begin (cs ! i) < span_begin s \<and> span_begin s < chunk_end (cs ! i))"
    and b: "\<not> (chunk_begin (cs ! i) < span_end s \<and> span_end s < chunk_end (cs ! i))"
    by (simp_all add: aligned_def)
  from assms(4) have o: "chunk_begin (cs ! i) < span_end s" "span_begin s < chunk_end (cs ! i)"
    by (simp_all add: overlaps_def)
  from a b o show ?thesis by linarith
qed

lemma aligned_first_chunk:
  assumes "well_chunked cs" "aligned cs s" "span_begin s < span_end s"
  shows "\<exists>c \<in> set cs. overlaps c s"
proof -
  from assms obtain i where i: "i < length cs" "chunk_begin (cs ! i) = span_begin s"
    by (auto simp: aligned_def)
  from assms(1) i(1) have "chunk_begin (cs ! i) < chunk_end (cs ! i)"
    by (simp add: well_chunked_def)
  with i assms(3) have "overlaps (cs ! i) s"
    by (simp add: overlaps_def)
  with i(1) show ?thesis
    using nth_mem by blast
qed

section \<open>When the layout raises\<close>

lemma js_error_TypeError: "(e :: js_error) = TypeError"
  by (cases e) simp

lemma compute_depths_unknown:
  "style_lookup styles sty = Undefined \<Longrightarrow> compute_depths styles sty anns = Inl TypeError"
proof (cases "scan_annotations styles anns ([False], [False], [False])")
  case (Inl e)
  then show ?thesis
    by (simp add: compute_depths_def js_error_TypeError)
next
  case (Inr r)
  assume "style_lookup styles sty = Undefined"
  with Inr show ?thesis
    by (cases r) (simp add: compute_depths_def)
qed

lemma scan_annotations_known:
  "\<forall>a \<in> set anns. \<not> mouseSelected a \<longrightarrow> style_lookup styles (ann_style a) \<noteq> Undefined
   \<Longrightarrow> \<exists>r. scan_annotations styles anns acc = Inr r"
proof (induction anns arbitrary: acc)
  case Nil
  show ?case by (cases acc rule: prod_cases3) simp
next
  case (Cons a anns)
  obtain mb mu mz where acc: "acc = (mb, mu, mz)"
    by (rule prod_cases3)
  from Cons.prems have rest: "\<And>acc'. \<exists>r. scan_annotations styles anns acc' = Inr r"
    by (intro Cons.IH) simp
  from Cons.prems
  have a: "mouseSelected a \<or> style_lookup styles (ann_style a) \<noteq> Undefined"
    by auto
  show ?case
    unfolding acc using a rest by (auto split: option.splits)
qed

lemma compute_depths_known:
  assumes "\<forall>a \<in> set anns. \<not> mouseSelected a \<longrightarrow> style_lookup styles (ann_style a) \<noteq> Undefined"
    and "style_lookup styles sty \<noteq> Undefined"
  shows "\<exists>nd nz. compute_depths styles sty anns = Inr (nd, nz)"
proof -
  from scan_annotations_known [OF assms(1)]
  obtain r where "scan_annotations styles anns ([False], [False], [False]) = Inr r"
    by blast
  with assms(2) show ?thesis
    by (auto simp: compute_depths_def split: prod.splits)
qed

lemma find_Some_overlap: "find P cs = Some c \<Longrightarrow> P c \<and> c \<in> set cs"
  by (induction cs) (auto split: if_splits)

lemma span_depths_unknown:
  assumes "\<not> span_mouseSelected s" "style_lookup styles (span_style s) = Undefined"
    and "\<exists>c \<in> set cs. overlaps c s"
  shows "span_depths styles s cs = Inl TypeError"
proof -
  from assms(2) have "auto_nesting styles (span_style s)"
    by (simp add: auto_nesting_def)
  moreover from assms(3) obtain c0 where "find (\<lambda>c. overlaps c s) cs = Some c0"
    by (cases "find (\<lambda>c. overlaps c s) cs") (auto simp: find_None_no_overlap)
  ultimately show ?thesis
    using assms(1,2) by (simp add: span_depths_def compute_depths_unknown)
qed

lemma span_depths_known:
  assumes "styles_known styles cs"
    and "\<not> span_mouseSelected s \<Longrightarrow> \<exists>c \<in> set cs. overlaps c s
         \<Longrightarrow> style_lookup styles (span_style s) \<noteq> Undefined"
  shows "\<exists>nd nz. span_depths styles s cs = Inr (nd, nz)"
proof (cases "find (\<lambda>c. overlaps c s) cs")
  case None
  then show ?thesis by (simp add: span_depths_def)
next
  case (Some c0)
  then have c0: "overlaps c0 s" "c0 \<in> set cs"
    by (auto dest: find_Some_overlap)
  show ?thesis
  proof (cases "\<not> span_mouseSelected s \<and> auto_nesting styles (span_style s)")
    case True
    with c0 assms(2) have "style_lookup styles (span_style s) \<noteq> Undefined" by blast
    moreover from assms(1) c0(2)
    have "\<forall>a \<in> set (token_annotations c0).
            \<not> mouseSelected a \<longrightarrow> style_lookup styles (ann_style a) \<noteq> Undefined"
      by (simp add: styles_known_def)
    ultimately have "\<exists>nd nz. compute_depths styles (span_style s) (token_annotations c0)
                       = Inr (nd, nz)"
      by (intro compute_depths_known)
    with True Some show ?thesis by (simp add: span_depths_def)
  next
    case False
    then show ?thesis by (auto simp: span_depths_def)
  qed
qed

lemma style_span_eq:
  "style_span styles s st =
     (case span_depths styles s (text_chunks (cluster_boundary styles s st)) of
        Inl e \<Rightarrow> Inl e
      | Inr (nd, nz) \<Rightarrow>
          Inr ((cluster_boundary styles s st)
             \<lparr>text_chunks := map (add_annotation s nd nz)
                               (text_chunks (cluster_boundary styles s st)),
              underlineCluster := cluster_after s 0 (text_chunks (cluster_boundary styles s st))
                                    (underlineCluster (cluster_boundary styles s st)),
              underlineClusterDepth :=
                ucd_after styles s (text_chunks (cluster_boundary styles s st)) nd
                  (underlineClusterDepth (cluster_boundary styles s st))\<rparr>))"
  by (simp add: style_span_def Let_def style_span_chunks_eq split: sum.splits prod.splits)

lemma geometry_cluster_boundary:
  assumes "geometry st ss"
  shows "well_chunked (text_chunks (cluster_boundary styles s st))
       \<and> (\<forall>x \<in> set ss. aligned (text_chunks (cluster_boundary styles s st)) x)"
proof -
  from assms have d: "distinct (underlineCluster st)"
    by (simp add: geometry_def)
  from assms show ?thesis
    by (simp add: geometry_def well_chunked_bounds [OF bounds_cluster_boundary [OF d]]
        aligned_bounds [OF bounds_cluster_boundary [OF d]])
qed

lemma geometry_style_span:
  assumes "geometry st ss" and "style_span styles s st = Inr st'"
  shows "geometry st' ss"
proof -
  from assms(1) have d: "distinct (underlineCluster st)"
    by (simp add: geometry_def)
  from style_span_bounds [OF d assms(2)]
  have b: "map chunk_bounds (text_chunks st') = map chunk_bounds (text_chunks st)"
    and d': "distinct (underlineCluster st')"
    by simp_all
  from assms(1) d' show ?thesis
    by (simp add: geometry_def well_chunked_bounds [OF b] aligned_bounds [OF b])
qed

lemma geometry_tail: "geometry st (s # ss) \<Longrightarrow> geometry st ss"
  by (simp add: geometry_def)

lemma style_span_unknown:
  assumes geo: "geometry st (s # ss)"
    and bad: "\<not> span_mouseSelected s" "span_begin s < span_end s"
      "style_lookup styles (span_style s) = Undefined"
  shows "style_span styles s st = Inl TypeError"
proof -
  from geometry_cluster_boundary [OF geo, of styles s]
  have "well_chunked (text_chunks (cluster_boundary styles s st))"
    and "aligned (text_chunks (cluster_boundary styles s st)) s"
    by simp_all
  then have "\<exists>c \<in> set (text_chunks (cluster_boundary styles s st)). overlaps c s"
    using bad(2) by (rule aligned_first_chunk)
  with bad(1,3) have "span_depths styles s (text_chunks (cluster_boundary styles s st)) = Inl TypeError"
    by (rule span_depths_unknown)
  then show ?thesis
    by (simp add: style_span_eq)
qed

lemma style_spans_unknown:
  assumes "geometry st ss" and "s \<in> set ss"
    and "\<not> span_mouseSelected s" "span_begin s < span_end s"
      "style_lookup styles (span_style s) = Undefined"
  shows "style_spans styles ss st = Inl TypeError"
  using assms(1,2)
proof (induction ss arbitrary: st)
  case Nil
  then show ?case by simp
next
  case (Cons x xs)
  show ?case
  proof (cases "style_span styles x st")
    case (Inl e)
    then show ?thesis by (simp add: js_error_TypeError)
  next
    case (Inr st')
    have "x \<noteq> s"
    proof
      assume "x = s"
      with Cons.prems(1) have "geometry st (s # xs)" by simp
      from style_span_unknown [OF this assms(3-5)] Inr \<open>x = s\<close> show False by simp
    qed
    with Cons.prems(2) have "s \<in> set xs" by simp
    moreover have "geometry st' xs"
      using geometry_style_span [OF Cons.prems(1) Inr] by (rule geometry_tail)
    ultimately have "style_spans styles xs st' = Inl TypeError"
      by (intro Cons.IH)
    with Inr show ?thesis by simp
  qed
qed

lemma geometry_init:
  "geometry (init_state (chunkText spans t)) spans"
  by (simp add: geometry_def init_state_def well_chunked_chunkText aligned_chunkText)

lemma with_text_fields [simp]:
  "span_begin (with_text t s) = span_begin s"
  "span_end (with_text t s) = span_end s"
  "span_mouseSelected (with_text t s) = span_mouseSelected s"
  "span_style (with_text t s) = span_style s"
  "span_id (with_text t s) = span_id s"
  "span_label (with_text t s) = span_label s"
  by (simp_all add: with_text_def)

lemma styled_text_chunks_unknown:
  assumes "s \<in> set spans" "\<not> span_mouseSelected s" "span_begin s < span_end s"
    "style_lookup styles (span_style s) = Undefined"
  shows "styled_text_chunks spans t styles = Inl TypeError"
proof -
  let ?spans = "map (with_text t) (sort_spans spans)"
  from assms(1) have "with_text t s \<in> set ?spans"
    by (simp add: set_sort_spans)
  then have "style_spans styles ?spans (init_state (chunkText ?spans t)) = Inl TypeError"
    using geometry_init assms(2-4) by (intro style_spans_unknown [where s = "with_text t s"]) simp_all
  then show ?thesis
    by (simp add: styled_text_chunks_def styleTextChunks_def)
qed


section \<open>When the layout succeeds\<close>

lemma styles_known_nth:
  "styles_known styles cs \<longleftrightarrow>
     (\<forall>k < length cs. \<forall>a \<in> set (token_annotations (cs ! k)).
        \<not> mouseSelected a \<longrightarrow> style_lookup styles (ann_style a) \<noteq> Undefined)"
  unfolding styles_known_def by (metis in_set_conv_nth)

lemma reverse_annotation_fields [simp]:
  "ann_style (reverse_annotation styles ucd a) = ann_style a"
  "mouseSelected (reverse_annotation styles ucd a) = mouseSelected a"
  "zIndex (reverse_annotation styles ucd a) = zIndex a"
  by (simp_all add: reverse_annotation_def)

lemma styles_known_reverse:
  assumes "distinct (underlineCluster st)" "styles_known styles (text_chunks st)"
  shows "styles_known styles (text_chunks (reverseUnderlineClusterDepths styles st))"
  using assms(2) unfolding styles_known_nth length_reverse
  by (auto simp: nth_reverse [OF assms(1)] reverse_chunk_def)

lemma styles_known_cluster_boundary:
  assumes "distinct (underlineCluster st)" "styles_known styles (text_chunks st)"
  shows "styles_known styles (text_chunks (cluster_boundary styles s st))"
  using assms by (simp add: cluster_boundary_def styles_known_reverse)

lemma styles_known_add:
  assumes "styles_known styles cs"
    and "\<not> span_mouseSelected s \<and> (\<exists>c \<in> set cs. overlaps c s)
         \<longrightarrow> style_lookup styles (span_style s) \<noteq> Undefined"
  shows "styles_known styles (map (add_annotation s nd nz) cs)"
  unfolding styles_known_def
proof (intro ballI impI)
  fix c' a
  assume c': "c' \<in> set (map (add_annotation s nd nz) cs)"
    and a: "a \<in> set (token_annotations c')" and ms: "\<not> mouseSelected a"
  from c' obtain c where c: "c \<in> set cs" "c' = add_annotation s nd nz c"
    by auto
  show "style_lookup styles (ann_style a) \<noteq> Undefined"
  proof (cases "overlaps c s \<and> a = make_annotation c s nd nz")
    case True
    with ms have "\<not> span_mouseSelected s" "ann_style a = span_style s"
      by (simp_all add: make_annotation_def)
    with True c(1) assms(2) show ?thesis by auto
  next
    case False
    with a c(2) have "a \<in> set (token_annotations c)"
      by (auto simp: add_annotation_def split: if_splits)
    with assms(1) c(1) ms show ?thesis
      by (simp add: styles_known_def)
  qed
qed

lemma overlap_nonempty:
  assumes "well_chunked cs" "aligned cs s" "\<exists>c \<in> set cs. overlaps c s"
  shows "span_begin s < span_end s"
proof -
  from assms(3) obtain i where "i < length cs" "overlaps (cs ! i) s"
    by (auto simp: in_set_conv_nth)
  with aligned_overlap_nonempty [OF assms(1,2)] show ?thesis by blast
qed

lemma style_span_known:
  assumes geo: "geometry st (s # ss)" and known: "styles_known styles (text_chunks st)"
    and ok: "\<not> span_mouseSelected s \<and> span_begin s < span_end s
             \<longrightarrow> style_lookup styles (span_style s) \<noteq> Undefined"
  shows "\<exists>st'. style_span styles s st = Inr st' \<and> styles_known styles (text_chunks st')"
proof -
  let ?st1 = "cluster_boundary styles s st"
  from geo have d: "distinct (underlineCluster st)"
    by (simp add: geometry_def)
  from geometry_cluster_boundary [OF geo, of styles s]
  have wc: "well_chunked (text_chunks ?st1)" and al: "aligned (text_chunks ?st1) s"
    by simp_all
  have k1: "styles_known styles (text_chunks ?st1)"
    using d known by (rule styles_known_cluster_boundary)
  have sty: "\<not> span_mouseSelected s \<and> (\<exists>c \<in> set (text_chunks ?st1). overlaps c s)
         \<longrightarrow> style_lookup styles (span_style s) \<noteq> Undefined"
    using overlap_nonempty [OF wc al] ok by blast
  then have sty': "\<not> span_mouseSelected s \<Longrightarrow> \<exists>c \<in> set (text_chunks ?st1). overlaps c s
         \<Longrightarrow> style_lookup styles (span_style s) \<noteq> Undefined"
    by blast
  from span_depths_known [OF k1 sty']
  obtain nd nz where "span_depths styles s (text_chunks ?st1) = Inr (nd, nz)"
    by blast
  then show ?thesis
    using styles_known_add [OF k1 sty] by (simp add: style_span_eq)
qed

lemma style_spans_known:
  assumes "geometry st ss" and "styles_known styles (text_chunks st)"
    and "\<forall>s \<in> set ss. \<not> span_mouseSelected s \<and> span_begin s < span_end s
           \<longrightarrow> style_lookup styles (span_style s) \<noteq> Undefined"
  shows "\<exists>st'. style_spans styles ss st = Inr st'"
  using assms
proof (induction ss arbitrary: st)
  case Nil
  then show ?case by simp
next
  case (Cons x xs)
  from style_span_known [OF Cons.prems(1,2)] Cons.prems(3)
  obtain st' where st': "style_span styles x st = Inr st'"
    and known: "styles_known styles (text_chunks st')"
    by auto
  have "geometry st' xs"
    using geometry_style_span [OF Cons.prems(1) st'] by (rule geometry_tail)
  from Cons.IH [OF this known] Cons.prems(3) st' show ?case
    by simp
qed

lemma styles_known_init: "styles_known styles (text_chunks (init_state (chunkText spans t)))"
proof -
  have "\<forall>k < length (chunkText spans t). token_annotations (chunkText spans t ! k) = []"
    by (simp add: nth_chunkText)
  then show ?thesis
    by (simp add: styles_known_nth init_state_def)
qed

lemma styled_text_chunks_known:
  assumes "\<forall>s \<in> set spans. \<not> span_mouseSelected s \<and> span_begin s < span_end s
             \<longrightarrow> style_lookup styles (span_style s) \<noteq> Undefined"
  shows "\<exists>cs. styled_text_chunks spans t styles = Inr cs"
proof -
  let ?spans = "map (with_text t) (sort_spans spans)"
  from assms
  have "\<forall>s \<in> set ?spans. \<not> span_mouseSelected s \<and> span_begin s < span_end s
             \<longrightarrow> style_lookup styles (span_style s) \<noteq> Undefined"
    by (simp add: set_sort_spans)
  from style_spans_known [OF geometry_init [of ?spans t] styles_known_init [of styles ?spans t] this]
  show ?thesis
    by (auto simp: styled_text_chunks_def styleTextChunks_def)
qed

text \<open>
  Claim C7, as the code has it. When some span that is not mouse-selected and not empty
  (\<open>begin < end\<close>, so that it overlaps a chunk) names a style that the table does not
  answer (it has no entry of that name, and the name is not a property inherited from
  \<open>Object.prototype\<close>), \<open>tokenize\<close> throws a \<open>TypeError\<close>. A mouse-selected span or a
  span that overlaps no chunk never makes it throw, whatever its style: when every span
  that is not mouse-selected and not empty names an entry of the table, \<open>tokenize\<close>
  returns a result.
\<close>

theorem unknown_style_raises:
  "((\<exists>s \<in> set spans. \<not> span_mouseSelected s \<and> span_begin s < span_end s
        \<and> style_lookup styles (span_style s) = Undefined)
      \<longrightarrow> snd (tokenize spans text styles) = Inl TypeError)
   \<and> ((\<forall>s \<in> set spans. \<not> span_mouseSelected s \<and> span_begin s < span_end s
        \<longrightarrow> (\<exists>st. style_lookup styles (span_style s) = Style st))
      \<longrightarrow> (\<exists>res. snd (tokenize spans text styles) = Inr res))"
proof (intro conjI impI)
  assume "\<exists>s \<in> set spans. \<not> span_mouseSelected s \<and> span_begin s < span_end s
          \<and> style_lookup styles (span_style s) = Undefined"
  then obtain s where "s \<in> set spans" "\<not> span_mouseSelected s" "span_begin s < span_end s"
    "style_lookup styles (span_style s) = Undefined"
    by blast
  from styled_text_chunks_unknown [OF this] show "snd (tokenize spans text styles) = Inl TypeError"
    by (simp add: tokenize_def Let_def)
next
  assume "\<forall>s \<in> set spans. \<not> span_mouseSelected s \<and> span_begin s < span_end s
        \<longrightarrow> (\<exists>st. style_lookup styles (span_style s) = Style st)"
  then have "\<forall>s \<in> set spans. \<not> span_mouseSelected s \<and> span_begin s < span_end s
             \<longrightarrow> style_lookup styles (span_style s) \<noteq> Undefined"
    by auto
  from styled_text_chunks_known [OF this] obtain cs
    where "styled_text_chunks spans text styles = Inr cs"
    by blast
  then show "\<exists>res. snd (tokenize spans text styles) = Inr res"
    by (simp add: tokenize_def Let_def)
qed

theorem unknown_style_raises_witness:
  "snd (tokenize [mk_span 5 6 ''b'' False, mk_span 0 2 ''missing'' False]
          example_text example_styles) = Inl TypeError
   \<and> (\<exists>res. snd (tokenize [mk_span 0 2 ''missing'' True, mk_span 3 3 ''missing'' False,
                            mk_span 5 6 ''b'' False]
                  example_text example_styles) = Inr res)"
proof
  have "\<exists>s \<in> set [mk_span 5 6 ''b'' False, mk_span 0 2 ''missing'' False].
          \<not> span_mouseSelected s \<and> span_begin s < span_end s
          \<and> style_lookup example_styles (span_style s) = Undefined"
    by (simp add: style_lookup_def example_styles_def mk_span_def object_prototype_names_def)
  with unknown_style_raises
         [of "[mk_span 5 6 ''b'' False, mk_span 0 2 ''missing'' False]" example_styles example_text]
  show "snd (tokenize [mk_span 5 6 ''b'' False, mk_span 0 2 ''missing'' False]
          example_text example_styles) = Inl TypeError"
    by blast
next
  have "\<forall>s \<in> set [mk_span 0 2 ''missing'' True, mk_span 3 3 ''missing'' False,
                   mk_span 5 6 ''b'' False].
          \<not> span_mouseSelected s \<and> span_begin s < span_end s
          \<longrightarrow> (\<exists>st. style_lookup example_styles (span_style s) = Style st)"
    by (simp add: style_lookup_def example_styles_def mk_span_def)
  with unknown_style_raises
         [of "[mk_span 0 2 ''missing'' True, mk_span 3 3 ''missing'' False,
               mk_span 5 6 ''b'' False]" example_styles example_text]
  show "\<exists>res. snd (tokenize [mk_span 0 2 ''missing'' True, mk_span 3 3 ''missing'' False,
                            mk_span 5 6 ''b'' False]
                  example_text example_styles) = Inr res"
    by blast
qed

text \<open>
  The table has no entry named \<open>missing\<close> and none named \<open>constructor\<close>. A mouse-selected
  span and an empty span that name the style \<open>missing\<close>: \<open>tokenize\<close> returns a layout.
  A span \<open>[0,2)\<close> that names the style \<open>constructor\<close>: the property read answers with
  the inherited \<open>Object.prototype.constructor\<close>, nothing throws, and the span is laid
  out as a box of depth 0.
\<close>

theorem unknown_style_tolerated:
  "example_styles ''missing'' = None
   \<and> snd (tokenize [mk_span 0 2 ''missing'' True, mk_span 3 3 ''missing'' False]
            example_text example_styles) \<noteq> Inl TypeError
   \<and> example_styles ''constructor'' = None
   \<and> snd (tokenize [mk_span 0 2 ''constructor'' False] example_text example_styles)
       \<noteq> Inl TypeError
   \<and> annotation_summary example_styles
         (styled_text_chunks [mk_span 0 2 ''constructor'' False] example_text example_styles)
       = Inr [[(False, False, Some 0)], []]"
  by code_simp

section \<open>The sources of the annotations\<close>

lemma from_span_reverse:
  "from_span (reverse_chunk styles ucd c) (reverse_annotation styles ucd a) s = from_span c a s"
  by (simp add: from_span_def reverse_chunk_def reverse_annotation_def)

lemma overlaps_reverse_chunk [simp]: "overlaps (reverse_chunk styles ucd c) s = overlaps c s"
  by (simp add: overlaps_def reverse_chunk_def)

lemma overlaps_add_annotation [simp]: "overlaps (add_annotation s' nd nz c) s = overlaps c s"
  by (simp add: overlaps_def add_annotation_def)

lemma sourced_reverse_chunk:
  assumes "list_all2 (from_span c) (token_annotations c) ss"
  shows "list_all2 (from_span (reverse_chunk styles ucd c))
           (token_annotations (reverse_chunk styles ucd c)) ss"
proof -
  have "token_annotations (reverse_chunk styles ucd c)
        = map (reverse_annotation styles ucd) (token_annotations c)"
    by (simp add: reverse_chunk_def)
  with assms show ?thesis
    by (simp add: list_all2_map1 from_span_reverse)
qed

lemma sourced_reverse:
  assumes "distinct (underlineCluster st)" "sourced (text_chunks st) processed"
  shows "sourced (text_chunks (reverseUnderlineClusterDepths styles st)) processed"
  using assms(2) unfolding sourced_def length_reverse
  by (auto simp: nth_reverse [OF assms(1)] sourced_reverse_chunk cong: filter_cong)

lemma sourced_cluster_boundary:
  assumes "distinct (underlineCluster st)" "sourced (text_chunks st) processed"
  shows "sourced (text_chunks (cluster_boundary styles s st)) processed"
  using assms by (simp add: cluster_boundary_def sourced_reverse)

lemma from_span_add:
  "from_span c a x \<Longrightarrow> from_span (add_annotation s nd nz c) a x"
  by (simp add: from_span_def add_annotation_def)

lemma sourced_add:
  assumes "sourced cs processed"
  shows "sourced (map (add_annotation s nd nz) cs) (processed @ [s])"
  unfolding sourced_def
proof (intro allI impI)
  fix k assume "k < length (map (add_annotation s nd nz) cs)"
  then have k: "k < length cs" by simp
  from assms k have src: "list_all2 (from_span (cs ! k)) (token_annotations (cs ! k))
          (rev (filter (overlaps (cs ! k)) processed))"
    by (simp add: sourced_def)
  then have src': "list_all2 (from_span (add_annotation s nd nz (cs ! k)))
          (token_annotations (cs ! k)) (rev (filter (overlaps (cs ! k)) processed))"
    by (rule list_all2_mono) (rule from_span_add)
  show "list_all2 (from_span (map (add_annotation s nd nz) cs ! k))
          (token_annotations (map (add_annotation s nd nz) cs ! k))
          (rev (filter (overlaps (map (add_annotation s nd nz) cs ! k)) (processed @ [s])))"
  proof (cases "overlaps (cs ! k) s")
    case True
    have new: "from_span (add_annotation s nd nz (cs ! k)) (make_annotation (cs ! k) s nd nz) s"
      by (simp add: from_span_def add_annotation_def make_annotation_def)
    have anns: "token_annotations (add_annotation s nd nz (cs ! k))
          = make_annotation (cs ! k) s nd nz # token_annotations (cs ! k)"
      using True by (simp add: add_annotation_def)
    from True k src' new show ?thesis
      by (simp add: anns cong: filter_cong)
  next
    case False
    then have "add_annotation s nd nz (cs ! k) = cs ! k"
      by (simp add: add_annotation_def)
    with False k src show ?thesis
      by (simp cong: filter_cong)
  qed
qed

lemma sourced_style_span:
  assumes "distinct (underlineCluster st)" "sourced (text_chunks st) processed"
    and "style_span styles s st = Inr st'"
  shows "sourced (text_chunks st') (processed @ [s])"
proof -
  from style_span_Inr [OF assms(3)] obtain nd nz
    where "st' = (cluster_boundary styles s st)
             \<lparr>text_chunks := map (add_annotation s nd nz)
                               (text_chunks (cluster_boundary styles s st)),
              underlineCluster := cluster_after s 0 (text_chunks (cluster_boundary styles s st))
                                    (underlineCluster (cluster_boundary styles s st)),
              underlineClusterDepth :=
                ucd_after styles s (text_chunks (cluster_boundary styles s st)) nd
                  (underlineClusterDepth (cluster_boundary styles s st))\<rparr>"
    by blast
  then have "text_chunks st' = map (add_annotation s nd nz)
                               (text_chunks (cluster_boundary styles s st))"
    by simp
  with sourced_add [OF sourced_cluster_boundary [OF assms(1,2)]] show ?thesis
    by simp
qed

lemma sourced_style_spans:
  assumes "distinct (underlineCluster st)" "sourced (text_chunks st) processed"
    and "style_spans styles ss st = Inr st'"
  shows "sourced (text_chunks st') (processed @ ss) \<and> distinct (underlineCluster st')
       \<and> map chunk_bounds (text_chunks st') = map chunk_bounds (text_chunks st)"
  using assms
proof (induction ss arbitrary: st processed)
  case Nil
  then show ?case by simp
next
  case (Cons x xs)
  from Cons.prems(3) obtain st1 where st1: "style_span styles x st = Inr st1"
    and rest: "style_spans styles xs st1 = Inr st'"
    by (auto split: sum.splits)
  from style_span_bounds [OF Cons.prems(1) st1]
  have b: "map chunk_bounds (text_chunks st1) = map chunk_bounds (text_chunks st)"
    and d: "distinct (underlineCluster st1)"
    by simp_all
  from Cons.IH [OF d sourced_style_span [OF Cons.prems(1,2) st1] rest] b show ?case
    by simp
qed

lemma sourced_init: "sourced (text_chunks (init_state (chunkText spans t))) []"
  by (simp add: sourced_def init_state_def nth_chunkText)

lemma styled_text_chunks_sourced:
  assumes "styled_text_chunks spans t styles = Inr cs"
  shows "sourced cs (map (with_text t) (sort_spans spans))
       \<and> map chunk_bounds cs
           = map chunk_bounds (chunkText (map (with_text t) (sort_spans spans)) t)"
proof -
  let ?spans = "map (with_text t) (sort_spans spans)"
  from assms obtain st where run: "style_spans styles ?spans (init_state (chunkText ?spans t)) = Inr st"
    and cs: "cs = text_chunks (reverseUnderlineClusterDepths styles st)"
    by (auto simp: styled_text_chunks_def styleTextChunks_def Let_def split: sum.splits)
  have d0: "distinct (underlineCluster (init_state (chunkText ?spans t)))"
    by (simp add: init_state_def)
  from sourced_style_spans [OF d0 sourced_init run]
  have src: "sourced (text_chunks st) ?spans" and d: "distinct (underlineCluster st)"
    and b: "map chunk_bounds (text_chunks st) = map chunk_bounds (chunkText ?spans t)"
    by (simp_all add: init_state_def)
  show ?thesis
    unfolding cs using sourced_reverse [OF d src] bounds_reverse [OF d] b by simp
qed

lemma zero_width_no_overlap:
  assumes "well_chunked cs" "aligned cs z" "span_begin z = span_end z" "c \<in> set cs"
  shows "\<not> overlaps c z"
proof
  assume "overlaps c z"
  with assms(4) have "\<exists>c \<in> set cs. overlaps c z" by blast
  from overlap_nonempty [OF assms(1,2) this] assms(3) show False by simp
qed

lemma aligned_with_text: "aligned cs (with_text t s) = aligned cs s"
  by (simp add: aligned_def)

lemma overlaps_with_text: "overlaps c (with_text t s) = overlaps c s"
  by (simp add: overlaps_def)

text \<open>
  Claim C10. Let \<open>z\<close> be a zero-width span of the input, the other spans being such that
  the layout does not raise (every span that is not mouse-selected and not empty names
  a style that the table answers; \<open>z\<close> itself needs none). Then \<open>tokenize\<close> returns a result;
  no chunk overlaps \<open>z\<close>, and the annotations of every chunk come one for one from the
  sorted spans that overlap the chunk, so none of them is made for \<open>z\<close>; and the id of
  \<open>z\<close> stands in the returned \<open>ids\<close> at the position \<open>z\<close> has in the sorted spans.
\<close>

theorem zero_width_span_not_annotated:
  assumes z: "z \<in> set spans" and zero: "span_begin z = span_end z"
    and known: "\<forall>s \<in> set spans. \<not> span_mouseSelected s \<and> span_begin s < span_end s
                  \<longrightarrow> style_lookup styles (span_style s) \<noteq> Undefined"
  shows "\<exists>cs res. styled_text_chunks spans text styles = Inr cs
      \<and> snd (tokenize spans text styles) = Inr res
      \<and> lines res = tokenizeTextChunks cs
      \<and> (\<forall>c \<in> set cs. \<not> overlaps c z
            \<and> list_all2 (from_span c) (token_annotations c)
                 (rev (filter (overlaps c) (map (with_text text) (sort_spans spans)))))
      \<and> (\<exists>i < length (sort_spans spans). sort_spans spans ! i = z \<and> ids res ! i = span_id z)"
proof -
  let ?spans = "map (with_text text) (sort_spans spans)"
  from styled_text_chunks_known [OF known] obtain cs
    where cs: "styled_text_chunks spans text styles = Inr cs"
    by blast
  define res where "res = \<lparr>lines = tokenizeTextChunks cs, ids = map span_id ?spans\<rparr>"
  have tok: "snd (tokenize spans text styles) = Inr res"
    by (simp add: tokenize_def Let_def cs res_def)
  from styled_text_chunks_sourced [OF cs]
  have src: "sourced cs ?spans"
    and b: "map chunk_bounds cs = map chunk_bounds (chunkText ?spans text)"
    by simp_all
  have wc: "well_chunked cs"
    by (simp add: well_chunked_bounds [OF b] well_chunked_chunkText)
  have "with_text text z \<in> set ?spans"
    using z by (simp add: set_sort_spans)
  then have "aligned (chunkText ?spans text) (with_text text z)"
    by (rule aligned_chunkText)
  then have al: "aligned cs z"
    by (simp add: aligned_bounds [OF b] aligned_with_text)
  have chunks: "\<not> overlaps c z
            \<and> list_all2 (from_span c) (token_annotations c) (rev (filter (overlaps c) ?spans))"
    if c: "c \<in> set cs" for c
  proof -
    from c obtain k where "k < length cs" "cs ! k = c"
      by (auto simp: in_set_conv_nth)
    with src have "list_all2 (from_span c) (token_annotations c) (rev (filter (overlaps c) ?spans))"
      by (auto simp: sourced_def)
    with zero_width_no_overlap [OF wc al zero c] show ?thesis by simp
  qed
  from z have "z \<in> set (sort_spans spans)"
    by (simp add: set_sort_spans)
  then obtain i where i: "i < length (sort_spans spans)" "sort_spans spans ! i = z"
    by (auto simp: in_set_conv_nth)
  then have "ids res ! i = span_id z"
    by (simp add: res_def)
  with i have pos: "\<exists>i < length (sort_spans spans). sort_spans spans ! i = z \<and> ids res ! i = span_id z"
    by blast
  have lines: "lines res = tokenizeTextChunks cs"
    by (simp add: res_def)
  from cs tok lines chunks pos show ?thesis
    by blast
qed

theorem zero_width_span_not_annotated_witness:
  "\<exists>cs res. styled_text_chunks [mk_span 5 5 ''missing'' False, mk_span 0 2 ''b'' False]
               example_text example_styles = Inr cs
     \<and> snd (tokenize [mk_span 5 5 ''missing'' False, mk_span 0 2 ''b'' False]
               example_text example_styles) = Inr res
     \<and> lines res = tokenizeTextChunks cs"
proof -
  have known: "\<forall>s \<in> set [mk_span 5 5 ''missing'' False, mk_span 0 2 ''b'' False].
      \<not> span_mouseSelected s \<and> span_begin s < span_end s
      \<longrightarrow> style_lookup example_styles (span_style s) \<noteq> Undefined"
    by (simp add: mk_span_def style_lookup_def example_styles_def object_prototype_names_def)
  have z: "mk_span 5 5 ''missing'' False
             \<in> set [mk_span 5 5 ''missing'' False, mk_span 0 2 ''b'' False]"
    by simp
  have zero: "span_begin (mk_span 5 5 ''missing'' False) = span_end (mk_span 5 5 ''missing'' False)"
    by (simp add: mk_span_def)
  from zero_width_span_not_annotated [OF z zero known, of example_text] show ?thesis
    by blast
qed

section \<open>The line splitter\<close>

lemma tokenize_chunk_tokens_events:
  "i + length ts = length (tokens c) \<Longrightarrow> ts = drop i (tokens c)
   \<Longrightarrow> off = int (length (concat (take i (tokens c))))
   \<Longrightarrow> tokenize_chunk_tokens c (length (tokens c)) i off ts acc
       = push_events
           (map (\<lambda>j. if tokens c ! j = [NL] then None else Some (token_data c j))
              [i ..< length (tokens c)]) acc"
proof (induction ts arbitrary: i off acc)
  case Nil
  then show ?case by simp
next
  case (Cons x xs)
  obtain cur al where acc: "acc = (cur, al)" by (cases acc)
  from Cons.prems(1) have i: "i < length (tokens c)" by simp
  from Cons.prems(2) i have "x # xs = tokens c ! i # drop (Suc i) (tokens c)"
    by (simp add: Cons_nth_drop_Suc)
  then have x: "x = tokens c ! i" and xs: "xs = drop (Suc i) (tokens c)"
    by simp_all
  have off': "off + int (length x) = int (length (concat (take (Suc i) (tokens c))))"
    using Cons.prems(3) i x by (simp add: take_Suc_conv_app_nth)
  have range: "[i ..< length (tokens c)] = i # [Suc i ..< length (tokens c)]"
    using i by (simp add: upt_conv_Cons)
  have step: "\<And>acc'. tokenize_chunk_tokens c (length (tokens c)) (Suc i) (off + int (length x)) xs acc'
       = push_events
           (map (\<lambda>j. if tokens c ! j = [NL] then None else Some (token_data c j))
              [Suc i ..< length (tokens c)]) acc'"
    using Cons.prems(1) xs off' by (intro Cons.IH) auto
  have data: "x \<noteq> [NL] \<Longrightarrow>
      \<lparr>td_text = x, td_key = token_key (chunk_begin c + off) (chunk_begin c + off + int (length x)),
        td_begin = chunk_begin c + off, td_end = chunk_begin c + off + int (length x),
        td_token_annotations = token_annotations c, isFirstTokenOfChunk = (i = 0),
        isLastTokenOfChunk = (int i = int (length (tokens c)) - 1)\<rparr> = token_data c i"
    using Cons.prems(3) x i by (auto simp: token_data_def Let_def token_key_def)
  have "tokenize_chunk_tokens c (length (tokens c)) i off (x # xs) (cur, al)
      = tokenize_chunk_tokens c (length (tokens c)) (Suc i) (off + int (length x)) xs
          (if x = [NL] then ([], al @ [cur]) else (cur @ [token_data c i], al))"
    using data by (cases "x = [NL]") (simp_all add: Let_def)
  also have "\<dots> = push_events
           (map (\<lambda>j. if tokens c ! j = [NL] then None else Some (token_data c j))
              [Suc i ..< length (tokens c)])
           (if x = [NL] then ([], al @ [cur]) else (cur @ [token_data c i], al))"
    by (rule step)
  also have "\<dots> = push_events
           (map (\<lambda>j. if tokens c ! j = [NL] then None else Some (token_data c j))
              (i # [Suc i ..< length (tokens c)])) (cur, al)"
    by (simp add: x)
  finally show ?case
    unfolding acc range .
qed

lemma tokenize_chunk_tokens_chunk:
  "tokenize_chunk_tokens c (length (tokens c)) 0 0 (tokens c) acc = push_events (chunk_events c) acc"
  using tokenize_chunk_tokens_events [of 0 "tokens c" c 0 acc]
  by (simp add: chunk_events_def)

lemma push_events_append: "push_events (es @ fs) acc = push_events fs (push_events es acc)"
proof (induction es arbitrary: acc)
  case Nil
  then show ?case by simp
next
  case (Cons e es)
  obtain cur al where "acc = (cur, al)" by (cases acc)
  with Cons show ?case by (cases e) simp_all
qed

lemma tokenize_chunks_events:
  "tokenize_chunks cs (cur, al, toks)
     = (fst (push_events (token_events cs) (cur, al)),
        snd (push_events (token_events cs) (cur, al)),
        if cs = [] then toks else tokens (last cs))"
proof (induction cs arbitrary: cur al toks)
  case Nil
  then show ?case by (simp add: token_events_def)
next
  case (Cons c cs)
  obtain cur' al' where p: "push_events (chunk_events c) (cur, al) = (cur', al')"
    by (cases "push_events (chunk_events c) (cur, al)")
  show ?case
    using Cons.IH [of cur' al' "tokens c"] p
    by (simp add: tokenize_chunk_tokens_chunk token_events_def push_events_append)
qed

lemma split_at_breaks_nonempty: "split_at_breaks es \<noteq> []"
  by (induction es rule: split_at_breaks.induct) simp_all

lemma push_events_lines:
  "push_events es (cur, al) = (cur', al')
   \<Longrightarrow> al' @ [cur'] = al @ (cur @ hd (split_at_breaks es)) # tl (split_at_breaks es)"
proof (induction es arbitrary: cur al)
  case Nil
  then show ?case by simp
next
  case (Cons e es)
  show ?case
  proof (cases e)
    case None
    with Cons.prems have "push_events es ([], al @ [cur]) = (cur', al')" by simp
    from Cons.IH [OF this] None show ?thesis
      using split_at_breaks_nonempty [of es] by (cases "split_at_breaks es") simp_all
  next
    case (Some d)
    with Cons.prems have "push_events es (cur @ [d], al) = (cur', al')" by simp
    from Cons.IH [OF this] Some show ?thesis by simp
  qed
qed

lemma last_token_events:
  assumes "cs \<noteq> []" "\<forall>c \<in> set cs. tokens c \<noteq> []"
  shows "token_events cs \<noteq> []
       \<and> (last (token_events cs) = None \<longleftrightarrow> last (tokens (last cs)) = [NL])"
proof -
  from assms have ne: "tokens (last cs) \<noteq> []" by simp
  then have ce: "chunk_events (last cs) \<noteq> []"
    by (simp add: chunk_events_def)
  have split: "token_events cs = token_events (butlast cs) @ chunk_events (last cs)"
    using assms(1) by (metis (no_types) append_butlast_last_id concat.simps concat_append
        list.simps(8,9) map_append self_append_conv token_events_def)
  have "last (chunk_events (last cs)) = None \<longleftrightarrow> last (tokens (last cs)) = [NL]"
    using ne by (simp add: chunk_events_def last_map last_conv_nth)
  with ce split show ?thesis by simp
qed

lemma chunk_tokens_nonempty: "chunk_tokens s \<noteq> []"
  by (cases s) (simp_all add: chunk_tokens_def)

lemma tokens_chunks_between: "\<forall>c \<in> set (chunks_between idx t). tokens c \<noteq> []"
  by (induction idx t rule: chunks_between.induct) (simp_all add: chunk_tokens_nonempty)

lemma tokens_chunkText: "\<forall>c \<in> set (chunkText spans t). tokens c \<noteq> []"
  by (simp add: chunkText_def tokens_chunks_between)

text \<open>
  Claim C8. On chunks that each hold at least one token (as the chunks of \<open>chunkText\<close>
  do), the lines of \<open>tokenizeTextChunks\<close> are those of the specification: a token that
  is a single newline ends the current line and gives no \<open>TokenData\<close>; any other token
  gives the \<open>TokenData\<close> of \<open>token_data\<close>, with \<open>begin\<close> and \<open>end\<close> from the running offset
  and the key \<open>begin-end\<close>; and the line open at the end is appended exactly when it is
  not empty or the last token was a newline.
\<close>

theorem tokenizeTextChunks_lines:
  assumes "\<forall>c \<in> set cs. tokens c \<noteq> []"
  shows "tokenizeTextChunks cs = lines_spec (token_events cs)"
proof -
  obtain cur al where p: "push_events (token_events cs) ([], []) = (cur, al)"
    by (cases "push_events (token_events cs) ([], [])")
  from push_events_lines [OF p] have "al @ [cur] = split_at_breaks (token_events cs)"
    using split_at_breaks_nonempty [of "token_events cs"] by simp
  then have al: "al = butlast (split_at_breaks (token_events cs))"
    and cur: "cur = last (split_at_breaks (token_events cs))"
    by (metis butlast_snoc, metis last_snoc)
  have run: "tokenize_chunks cs ([], [], []) = (cur, al, if cs = [] then [] else tokens (last cs))"
    by (simp add: tokenize_chunks_events p)
  have nl: "(length (if cs = [] then [] else tokens (last cs)) \<noteq> 0
             \<and> last (if cs = [] then [] else tokens (last cs)) = [NL])
        \<longleftrightarrow> (token_events cs \<noteq> [] \<and> last (token_events cs) = None)"
  proof (cases "cs = []")
    case True
    then show ?thesis by (simp add: token_events_def)
  next
    case False
    with last_token_events [OF False assms] assms show ?thesis by simp
  qed
  have "al @ [cur] = split_at_breaks (token_events cs)"
    by fact
  with nl show ?thesis
    unfolding tokenizeTextChunks_def run lines_spec_def
    by (simp add: al [symmetric] cur [symmetric])
qed

theorem tokenizeTextChunks_lines_witness:
  "map (map td_text) (tokenizeTextChunks (chunkText [] [97, 10])) = [[[97]], []]
   \<and> map (map td_key) (tokenizeTextChunks (chunkText [] [97, 10])) = [[''0-1''], []]"
proof -
  have h: "\<forall>c \<in> set (chunkText [] [97, 10]). tokens c \<noteq> []"
    by (rule tokens_chunkText)
  have "map (map td_text) (lines_spec (token_events (chunkText [] [97, 10]))) = [[[97]], []]"
    by code_simp
  moreover
  have "map (map td_key) (lines_spec (token_events (chunkText [] [97, 10]))) = [[''0-1''], []]"
    by code_simp
  ultimately show ?thesis
    using tokenizeTextChunks_lines [OF h] by simp
qed

section \<open>First-fit depths\<close>

lemma length_mark: "length arr \<le> length (mark arr d)"
  by (auto simp: mark_def split: option.splits)

lemma occupied_mark:
  "occupied (mark arr d)
     = occupied arr \<union> (case d of None \<Rightarrow> {} | Some x \<Rightarrow> if 0 \<le> x then {nat x} else {})"
proof (cases d)
  case None
  then show ?thesis by (simp add: mark_def)
next
  case (Some x)
  show ?thesis
  proof (cases "x < 0")
    case True
    with Some show ?thesis by (simp add: mark_def)
  next
    case neg: False
    show ?thesis
    proof (cases "nat x < length arr")
      case True
      with Some neg show ?thesis
        by (auto simp: mark_def occupied_def nth_list_update)
    next
      case False
      have "occupied (arr @ replicate (nat x - length arr) False @ [True])
            = occupied arr \<union> {nat x}"
      proof -
        have n: "length arr + (nat x - length arr) = nat x" using False by simp
        have "\<And>i. i < length (arr @ replicate (nat x - length arr) False @ [True])
                \<and> (arr @ replicate (nat x - length arr) False @ [True]) ! i
              \<longleftrightarrow> (i < length arr \<and> arr ! i) \<or> i = nat x"
          using False by (auto simp: nth_append n)
        then show ?thesis
          unfolding occupied_def by blast
      qed
      with Some neg False show ?thesis
        by (simp add: mark_def)
    qed
  qed
qed

lemma takeWhile_stops:
  assumes "x \<in> set xs" and "\<not> P x"
  shows "length (takeWhile P xs) < length xs"
  using assms by (induction xs) auto

lemma first_missing_first_free:
  "first_free (first_missing arr) (int ` occupied arr)"
proof (cases "\<exists>x \<in> set arr. \<not> x")
  case True
  let ?m = "length (takeWhile (\<lambda>x. x) arr)"
  from True obtain x where "x \<in> set arr" "\<not> x" by blast
  then have m: "?m < length arr"
    by (rule takeWhile_stops)
  then have notm: "\<not> arr ! ?m"
    using nth_length_takeWhile [of "\<lambda>x. x" arr] by simp
  have below: "arr ! j" if "j < ?m" for j
  proof -
    from that have "takeWhile (\<lambda>x. x) arr ! j \<in> set (takeWhile (\<lambda>x. x) arr)"
      by (rule nth_mem)
    then have "takeWhile (\<lambda>x. x) arr ! j"
      by (rule set_takeWhileD [THEN conjunct2])
    with that show ?thesis
      by (simp add: takeWhile_nth)
  qed
  have fm: "first_missing arr = int ?m"
    using True by (simp add: first_missing_def findIndex_isNot_def Let_def)
  have "\<And>x. 0 \<le> x \<Longrightarrow> x < int ?m \<Longrightarrow> x \<in> int ` occupied arr"
  proof -
    fix x :: int assume x: "0 \<le> x" "x < int ?m"
    then have "nat x < ?m" by simp
    with below m have "nat x \<in> occupied arr"
      by (simp add: occupied_def)
    with x show "x \<in> int ` occupied arr"
      by (metis image_eqI int_nat_eq)
  qed
  with notm show ?thesis
    by (auto simp: first_free_def fm occupied_def)
next
  case False
  then have "findIndex_isNot arr = - 1"
    unfolding findIndex_isNot_def by (rule if_not_P)
  then have fm: "first_missing arr = int (length arr)"
    by (simp add: first_missing_def)
  have "\<And>x. 0 \<le> x \<Longrightarrow> x < int (length arr) \<Longrightarrow> x \<in> int ` occupied arr"
  proof -
    fix x :: int assume x: "0 \<le> x" "x < int (length arr)"
    then have n: "nat x < length arr" by simp
    then have "arr ! nat x \<in> set arr" by (rule nth_mem)
    with False have "arr ! nat x" by blast
    with n have "nat x \<in> occupied arr"
      by (simp add: occupied_def)
    with x show "x \<in> int ` occupied arr"
      by (metis image_eqI int_nat_eq)
  qed
  then show ?thesis
    by (auto simp: first_free_def fm occupied_def)
qed

lemma first_free_cong:
  "first_free d S \<Longrightarrow> (\<And>x. 0 \<le> x \<Longrightarrow> x \<in> S \<longleftrightarrow> x \<in> T) \<Longrightarrow> first_free d T"
  by (auto simp: first_free_def)

text \<open>What the three arrays hold after the scan of a chunk's annotations.\<close>

lemma scan_annotations_occupied:
  "scan_annotations styles anns (mb, mu, mz) = Inr (mb', mu', mz')
   \<Longrightarrow> int ` occupied mb' \<inter> {0..} = (int ` occupied mb \<union> shape_depths styles False anns) \<inter> {0..}
     \<and> int ` occupied mu' \<inter> {0..} = (int ` occupied mu \<union> shape_depths styles True anns) \<inter> {0..}
     \<and> int ` occupied mz' \<inter> {0..} = (int ` occupied mz \<union> taken_zIndices anns) \<inter> {0..}"
proof (induction anns arbitrary: mb mu mz)
  case Nil
  then show ?case
    by (simp add: shape_depths_def taken_zIndices_def)
next
  case (Cons a anns)
  have mark_int: "\<And>arr d. int ` occupied (mark arr d) \<inter> {0..}
      = (int ` occupied arr \<union> (case d of None \<Rightarrow> {} | Some x \<Rightarrow> {x})) \<inter> {0..}"
    by (auto simp: occupied_mark split: option.splits)
  have sd: "\<And>u. shape_depths styles u (a # anns)
      = (if \<not> mouseSelected a \<and> is_underline styles (ann_style a) = u
         then (case depth a of None \<Rightarrow> {} | Some x \<Rightarrow> {x}) else {})
        \<union> shape_depths styles u anns"
    by (auto simp: shape_depths_def split: option.splits)
  have tz: "taken_zIndices (a # anns)
      = (if \<not> mouseSelected a then (case zIndex a of None \<Rightarrow> {} | Some x \<Rightarrow> {x}) else {})
        \<union> taken_zIndices anns"
    by (auto simp: taken_zIndices_def split: option.splits)
  show ?case
  proof (cases "mouseSelected a")
    case True
    with Cons.prems have "scan_annotations styles anns (mb, mu, mz) = Inr (mb', mu', mz')"
      by simp
    from Cons.IH [OF this] True show ?thesis
      by (simp add: sd tz)
  next
    case False
    with Cons.prems have st: "style_lookup styles (ann_style a) \<noteq> Undefined"
      by (auto split: if_splits)
    show ?thesis
    proof (cases "shape_is_underline (style_lookup styles (ann_style a))")
      case True
      then have u: "is_underline styles (ann_style a)"
        by (simp add: is_underline_def)
      from Cons.prems False st True
      have "scan_annotations styles anns (mb, mark mu (depth a), mark mz (zIndex a))
              = Inr (mb', mu', mz')"
        by simp
      from Cons.IH [OF this] False u show ?thesis
        unfolding sd tz by (simp add: mark_int Int_Un_distrib2 Un_assoc)
    next
      case nu: False
      then have u: "\<not> is_underline styles (ann_style a)"
        by (simp add: is_underline_def)
      from Cons.prems False st nu
      have "scan_annotations styles anns (mark mb (depth a), mu, mark mz (zIndex a))
              = Inr (mb', mu', mz')"
        by simp
      from Cons.IH [OF this] False u show ?thesis
        unfolding sd tz by (simp add: mark_int Int_Un_distrib2 Un_assoc)
    qed
  qed
qed

lemma occupied_initial: "int ` occupied [False] = {}"
  by (auto simp: occupied_def)

lemma first_free_Int: "first_free d (S \<inter> {0..}) = first_free d S"
  by (auto simp: first_free_def)

lemma compute_depths_first_free:
  assumes "compute_depths styles sty anns = Inr (nd, nz)"
  shows "\<exists>d z. nd = Some d \<and> nz = Some z
       \<and> first_free d (shape_depths styles (is_underline styles sty) anns)
       \<and> first_free z (taken_zIndices anns)"
proof -
  from assms obtain mb mu mz
    where scan: "scan_annotations styles anns ([False], [False], [False]) = Inr (mb, mu, mz)"
      and nd: "nd = Some (first_missing (if is_underline styles sty then mu else mb))"
      and nz: "nz = Some (first_missing mz)"
    by (auto simp: compute_depths_def is_underline_def split: sum.splits if_splits prod.splits)
  from scan_annotations_occupied [OF scan]
  have b: "int ` occupied mb \<inter> {0..} = shape_depths styles False anns \<inter> {0..}"
    and u: "int ` occupied mu \<inter> {0..} = shape_depths styles True anns \<inter> {0..}"
    and z: "int ` occupied mz \<inter> {0..} = taken_zIndices anns \<inter> {0..}"
    by (simp_all add: occupied_initial)
  have free: "\<And>arr S. int ` occupied arr \<inter> {0..} = S \<inter> {0..} \<Longrightarrow> first_free (first_missing arr) S"
  proof -
    fix arr and S :: "int set"
    assume eq: "int ` occupied arr \<inter> {0..} = S \<inter> {0..}"
    have "first_free (first_missing arr) (int ` occupied arr \<inter> {0..})"
      by (simp only: first_free_Int first_missing_first_free)
    then have "first_free (first_missing arr) (S \<inter> {0..})"
      by (simp only: eq)
    then show "first_free (first_missing arr) S"
      by (simp only: first_free_Int)
  qed
  have fz: "first_free (first_missing mz) (taken_zIndices anns)"
    using z by (rule free)
  have fd: "first_free (first_missing (if is_underline styles sty then mu else mb))
              (shape_depths styles (is_underline styles sty) anns)"
  proof (cases "is_underline styles sty")
    case True
    with free [OF u] show ?thesis by simp
  next
    case False
    with free [OF b] show ?thesis by simp
  qed
  from nd nz fd fz show ?thesis by blast
qed

section \<open>Distinct depths: the reversal\<close>

lemma laid_out_reverse [simp]:
  "laid_out styles (reverse_annotation styles ucd a) = laid_out styles a"
  by (simp add: laid_out_def)

lemma depth_key_reverse:
  "depth_key styles (reverse_annotation styles ucd a)
     = (is_underline styles (ann_style a),
        if is_underline styles (ann_style a) then Some (to_number (depth a) - ucd - 1)
        else depth a)"
  by (simp add: depth_key_def reverse_annotation_def)

lemma distinct_depths_reverse:
  assumes "distinct_depths styles c"
  shows "distinct_depths styles (reverse_chunk styles ucd c)"
proof -
  let ?as = "filter (laid_out styles) (token_annotations c)"
  let ?r = "reverse_annotation styles ucd"
  have filt: "filter (laid_out styles) (map ?r (token_annotations c)) = map ?r ?as"
    by (simp add: filter_map comp_def)
  from assms have d: "distinct (map (depth_key styles) ?as)"
    and some: "\<forall>a \<in> set ?as. depth a \<noteq> None"
    by (simp_all add: distinct_depths_def)
  have inj: "inj_on (\<lambda>a. depth_key styles (?r a)) (set ?as)"
  proof (rule inj_onI)
    fix a b assume a: "a \<in> set ?as" and b: "b \<in> set ?as"
      and eq: "depth_key styles (?r a) = depth_key styles (?r b)"
    from a some have "depth a \<noteq> None" by blast
    moreover from b some have "depth b \<noteq> None" by blast
    ultimately obtain x y where xy: "depth a = Some x" "depth b = Some y"
      by auto
    from eq have "(is_underline styles (ann_style a),
        if is_underline styles (ann_style a) then Some (to_number (depth a) - ucd - 1)
        else depth a)
      = (is_underline styles (ann_style b),
        if is_underline styles (ann_style b) then Some (to_number (depth b) - ucd - 1)
        else depth b)"
      by (simp only: depth_key_reverse)
    with xy have "depth_key styles a = depth_key styles b"
      by (auto simp: depth_key_def to_number_def split: if_splits)
    with d a b show "a = b"
      by (meson distinct_map inj_onD)
  qed
  from d have "distinct ?as"
    by (simp add: distinct_map)
  with inj have "distinct (map (\<lambda>a. depth_key styles (?r a)) ?as)"
    by (simp add: distinct_map)
  moreover have "\<forall>a \<in> set (token_annotations c). laid_out styles a \<longrightarrow> depth (?r a) \<noteq> None"
    using assms by (auto simp: distinct_depths_def reverse_annotation_def)
  ultimately show ?thesis
    by (simp add: distinct_depths_def reverse_chunk_def filt comp_def)
qed

lemma regular_reverse_chunk:
  "(\<exists>a \<in> set (token_annotations (reverse_chunk styles ucd c)). \<not> mouseSelected a)
     \<longleftrightarrow> (\<exists>a \<in> set (token_annotations c). \<not> mouseSelected a)"
  by (simp add: reverse_chunk_def)

lemma reg_keys_empty:
  "reg_keys styles c = {} \<longleftrightarrow> \<not> (\<exists>a \<in> set (token_annotations c). \<not> mouseSelected a)"
  by (auto simp: reg_keys_def)

section \<open>Distinct depths: the chunks of a span\<close>

lemma chunk_begin_mono:
  assumes "well_chunked cs"
  shows "i \<le> j \<Longrightarrow> j < length cs \<Longrightarrow> chunk_begin (cs ! i) \<le> chunk_begin (cs ! j)"
proof (induction j)
  case 0
  then show ?case by simp
next
  case (Suc j)
  show ?case
  proof (cases "i = Suc j")
    case True
    then show ?thesis by simp
  next
    case False
    with Suc.prems have "i \<le> j" "j < length cs" by simp_all
    then have "chunk_begin (cs ! i) \<le> chunk_begin (cs ! j)" by (rule Suc.IH)
    moreover from assms \<open>j < length cs\<close>
    have "chunk_begin (cs ! j) < chunk_end (cs ! j)"
      by (simp add: well_chunked_def)
    moreover from assms Suc.prems(2)
    have "chunk_end (cs ! j) = chunk_begin (cs ! Suc j)"
      by (simp add: well_chunked_def)
    ultimately show ?thesis by simp
  qed
qed

lemma reg_keys_chain:
  assumes wc: "well_chunked cs"
    and nest: "\<forall>k. Suc k < length cs \<and> B \<le> chunk_begin (cs ! k)
                 \<longrightarrow> reg_keys styles (cs ! Suc k) \<subseteq> reg_keys styles (cs ! k)"
    and k0: "B \<le> chunk_begin (cs ! k0)"
  shows "k0 \<le> k \<Longrightarrow> k < length cs \<Longrightarrow> reg_keys styles (cs ! k) \<subseteq> reg_keys styles (cs ! k0)"
proof (induction k)
  case 0
  then show ?case by simp
next
  case (Suc k)
  show ?case
  proof (cases "k0 = Suc k")
    case True
    then show ?thesis by simp
  next
    case False
    with Suc.prems have le: "k0 \<le> k" and len: "k < length cs" by simp_all
    from chunk_begin_mono [OF wc le len] k0 have "B \<le> chunk_begin (cs ! k)" by simp
    with nest Suc.prems(2) have "reg_keys styles (cs ! Suc k) \<subseteq> reg_keys styles (cs ! k)"
      by simp
    with Suc.IH [OF le len] show ?thesis by blast
  qed
qed

lemma find_first_index:
  "find P xs = Some x \<Longrightarrow> \<exists>k < length xs. xs ! k = x \<and> P x \<and> (\<forall>j < k. \<not> P (xs ! j))"
  by (auto simp: find_Some_iff)

lemma token_annotations_add:
  "token_annotations (add_annotation s nd nz c)
     = (if overlaps c s then make_annotation c s nd nz # token_annotations c
        else token_annotations c)"
  by (simp add: add_annotation_def)

lemma make_annotation_fields [simp]:
  "mouseSelected (make_annotation c s nd nz) = span_mouseSelected s"
  "ann_style (make_annotation c s nd nz) = span_style s"
  "depth (make_annotation c s nd nz) = nd"
  "zIndex (make_annotation c s nd nz) = nz"
  by (simp_all add: make_annotation_def)

lemma reg_keys_add:
  "reg_keys styles (add_annotation s nd nz c)
     = (if overlaps c s \<and> \<not> span_mouseSelected s
        then insert (is_underline styles (span_style s), nd) (reg_keys styles c)
        else reg_keys styles c)"
proof (cases "overlaps c s")
  case False
  then show ?thesis
    by (simp add: reg_keys_def token_annotations_add)
next
  case True
  have "{a \<in> set (make_annotation c s nd nz # token_annotations c). \<not> mouseSelected a}
      = (if span_mouseSelected s then {} else {make_annotation c s nd nz})
        \<union> {a \<in> set (token_annotations c). \<not> mouseSelected a}"
    by auto
  with True show ?thesis
    by (simp add: reg_keys_def token_annotations_add depth_key_def)
qed

lemma laid_out_keys: "depth_key styles ` set (filter (laid_out styles) (token_annotations c))
    \<subseteq> reg_keys styles c"
  by (auto simp: reg_keys_def laid_out_def)

lemma distinct_depths_add:
  assumes d: "distinct_depths styles c"
    and new: "overlaps c s \<Longrightarrow> \<not> span_mouseSelected s \<Longrightarrow> auto_nesting styles (span_style s)
              \<Longrightarrow> nd \<noteq> None \<and> (is_underline styles (span_style s), nd) \<notin> reg_keys styles c"
  shows "distinct_depths styles (add_annotation s nd nz c)"
proof (cases "overlaps c s \<and> \<not> span_mouseSelected s \<and> auto_nesting styles (span_style s)")
  case True
  with new have nd: "nd \<noteq> None"
    and fresh: "(is_underline styles (span_style s), nd) \<notin> reg_keys styles c"
    by simp_all
  from fresh laid_out_keys [of styles c]
  have "(is_underline styles (span_style s), nd)
          \<notin> depth_key styles ` set (filter (laid_out styles) (token_annotations c))"
    by blast
  with True d nd show ?thesis
    by (simp add: distinct_depths_def token_annotations_add laid_out_def depth_key_def)
next
  case False
  with d show ?thesis
    by (auto simp: distinct_depths_def token_annotations_add laid_out_def)
qed

lemma span_depths_fresh:
  assumes sd: "span_depths styles s cs = Inr (nd, nz)"
    and auto: "\<not> span_mouseSelected s" "auto_nesting styles (span_style s)"
    and first: "find (\<lambda>c. overlaps c s) cs = Some c0"
  shows "nd \<noteq> None \<and> (is_underline styles (span_style s), nd) \<notin> reg_keys styles c0"
proof -
  from sd auto first
  have "compute_depths styles (span_style s) (token_annotations c0) = Inr (nd, nz)"
    by (simp add: span_depths_def)
  from compute_depths_first_free [OF this] obtain d
    where nd: "nd = Some d"
      and free: "first_free d (shape_depths styles (is_underline styles (span_style s))
                    (token_annotations c0))"
    by blast
  from free have "d \<notin> shape_depths styles (is_underline styles (span_style s))
                    (token_annotations c0)"
    by (simp add: first_free_def)
  then have "(is_underline styles (span_style s), Some d) \<notin> reg_keys styles c0"
    by (auto simp: shape_depths_def reg_keys_def depth_key_def)
  with nd show ?thesis by simp
qed

section \<open>Distinct depths: one span\<close>

lemma layout_inv_only_mouse_selected:
  assumes "only_mouse_selected st"
  shows "layout_inv styles B st"
proof -
  from assms have none: "\<And>k. k < length (text_chunks st)
      \<Longrightarrow> \<forall>a \<in> set (token_annotations (text_chunks st ! k)). mouseSelected a"
    by (simp add: only_mouse_selected_def)
  have keys: "reg_keys styles (text_chunks st ! k) = {}" if "k < length (text_chunks st)" for k
    using none [OF that] by (simp add: reg_keys_empty)
  have dist: "distinct_depths styles (text_chunks st ! k)" if "k < length (text_chunks st)" for k
  proof -
    from none [OF that]
    have "filter (laid_out styles) (token_annotations (text_chunks st ! k)) = []"
      by (simp add: laid_out_def)
    with none [OF that] show ?thesis
      by (simp add: distinct_depths_def laid_out_def)
  qed
  show ?thesis
    unfolding layout_inv_def using none keys dist by auto
qed

lemma only_mouse_selected_style_span:
  assumes d: "distinct (underlineCluster st)" and only: "only_mouse_selected st"
    and ms: "span_mouseSelected s" and run: "style_span styles s st = Inr st'"
  shows "only_mouse_selected st'"
proof -
  let ?st1 = "cluster_boundary styles s st"
  have len: "length (text_chunks ?st1) = length (text_chunks st)"
    by (simp add: cluster_boundary_def length_reverse)
  have one: "\<forall>a \<in> set (token_annotations (text_chunks ?st1 ! k)). mouseSelected a"
    if k: "k < length (text_chunks st)" for k
  proof -
    from only k have "\<forall>a \<in> set (token_annotations (text_chunks st ! k)). mouseSelected a"
      by (simp add: only_mouse_selected_def)
    then show ?thesis
      using k by (simp add: cluster_boundary_def nth_reverse [OF d] reverse_chunk_def)
  qed
  from style_span_Inr [OF run] obtain nd nz
    where st': "st' = ?st1
             \<lparr>text_chunks := map (add_annotation s nd nz) (text_chunks ?st1),
              underlineCluster := cluster_after s 0 (text_chunks ?st1) (underlineCluster ?st1),
              underlineClusterDepth :=
                ucd_after styles s (text_chunks ?st1) nd (underlineClusterDepth ?st1)\<rparr>"
    by blast
  have cs': "text_chunks st' = map (add_annotation s nd nz) (text_chunks ?st1)"
    unfolding st' by simp
  show ?thesis
    unfolding only_mouse_selected_def cs'
    using one ms by (simp add: len token_annotations_add)
qed

lemma layout_inv_cluster_boundary:
  assumes geo: "geometry st (s # ss)" and inv: "layout_inv styles B st"
    and B: "B \<le> span_begin s"
  shows "layout_inv styles (span_begin s) (cluster_boundary styles s st)
       \<and> span_end s \<le> rightMostOffset (cluster_boundary styles s st)"
proof (cases "span_begin s \<ge> rightMostOffset st")
  case False
  then have st1: "text_chunks (cluster_boundary styles s st) = text_chunks st"
    and rmo: "rightMostOffset (cluster_boundary styles s st) = max (rightMostOffset st) (span_end s)"
    by (simp_all add: cluster_boundary_def)
  have k1: "chunk_end (text_chunks st ! k) \<le> max (max (rightMostOffset st) (span_end s)) (span_begin s)"
    if "k < length (text_chunks st)"
      "\<exists>a \<in> set (token_annotations (text_chunks st ! k)). \<not> mouseSelected a" for k
  proof -
    from inv that have "chunk_end (text_chunks st ! k) \<le> max (rightMostOffset st) B"
      by (simp add: layout_inv_def)
    with B show ?thesis by linarith
  qed
  have k2: "reg_keys styles (text_chunks st ! Suc k) \<subseteq> reg_keys styles (text_chunks st ! k)"
    if "Suc k < length (text_chunks st)" "span_begin s \<le> chunk_begin (text_chunks st ! k)" for k
  proof -
    from that(2) B have "B \<le> chunk_begin (text_chunks st ! k)" by simp
    with inv that(1) show ?thesis
      by (simp add: layout_inv_def)
  qed
  from inv have k3: "\<forall>k < length (text_chunks st). distinct_depths styles (text_chunks st ! k)"
    by (simp add: layout_inv_def)
  have "layout_inv styles (span_begin s) (cluster_boundary styles s st)"
    unfolding layout_inv_def st1 rmo using k1 k2 k3 by blast
  then show ?thesis
    by (simp add: rmo)
next
  case True
  let ?cs = "text_chunks st"
  let ?st1 = "cluster_boundary styles s st"
  from geo have d: "distinct (underlineCluster st)" and wc: "well_chunked ?cs"
    by (simp_all add: geometry_def)
  from True have rmo: "rightMostOffset ?st1 = span_end s"
    by (simp add: cluster_boundary_def)
  from True have len: "length (text_chunks ?st1) = length ?cs"
    by (simp add: cluster_boundary_def length_reverse)
  have nth: "text_chunks ?st1 ! k
      = (if k \<in> set (underlineCluster st)
         then reverse_chunk styles (underlineClusterDepth st) (?cs ! k) else ?cs ! k)"
    if "k < length ?cs" for k
    using True that by (simp add: cluster_boundary_def nth_reverse [OF d])
  have bounds: "chunk_begin (text_chunks ?st1 ! k) = chunk_begin (?cs ! k)
      \<and> chunk_end (text_chunks ?st1 ! k) = chunk_end (?cs ! k)"
    if "k < length ?cs" for k
    using nth [OF that] by (simp add: reverse_chunk_def)
  have regular: "(\<exists>a \<in> set (token_annotations (text_chunks ?st1 ! k)). \<not> mouseSelected a)
      \<longleftrightarrow> (\<exists>a \<in> set (token_annotations (?cs ! k)). \<not> mouseSelected a)"
    if "k < length ?cs" for k
    using nth [OF that] by (simp add: regular_reverse_chunk)
  have left: "chunk_end (?cs ! k) \<le> span_begin s"
    if "k < length ?cs" "\<exists>a \<in> set (token_annotations (?cs ! k)). \<not> mouseSelected a" for k
  proof -
    from inv that have "chunk_end (?cs ! k) \<le> max (rightMostOffset st) B"
      by (simp add: layout_inv_def)
    with True B show ?thesis by simp
  qed
  have k1: "chunk_end (text_chunks ?st1 ! k) \<le> max (rightMostOffset ?st1) (span_begin s)"
    if "k < length ?cs" "\<exists>a \<in> set (token_annotations (text_chunks ?st1 ! k)). \<not> mouseSelected a"
    for k
    using left [OF that(1)] that regular [OF that(1)] bounds [OF that(1)] by simp
  have k2: "reg_keys styles (text_chunks ?st1 ! Suc k) \<subseteq> reg_keys styles (text_chunks ?st1 ! k)"
    if "Suc k < length ?cs" "span_begin s \<le> chunk_begin (text_chunks ?st1 ! k)" for k
  proof -
    from that(1) have k: "k < length ?cs" by simp
    from wc k have "chunk_begin (?cs ! k) < chunk_end (?cs ! k)"
      by (simp add: well_chunked_def)
    moreover from wc that(1) have "chunk_end (?cs ! k) = chunk_begin (?cs ! Suc k)"
      by (simp add: well_chunked_def)
    moreover from wc that(1) have "chunk_begin (?cs ! Suc k) < chunk_end (?cs ! Suc k)"
      by (simp add: well_chunked_def)
    ultimately have "\<not> chunk_end (?cs ! Suc k) \<le> span_begin s"
      using that(2) bounds [OF k] by simp
    with left [OF that(1)]
    have "\<not> (\<exists>a \<in> set (token_annotations (?cs ! Suc k)). \<not> mouseSelected a)"
      by blast
    then have "reg_keys styles (text_chunks ?st1 ! Suc k) = {}"
      using regular [OF that(1)] by (simp add: reg_keys_empty)
    then show ?thesis by simp
  qed
  have k3: "distinct_depths styles (text_chunks ?st1 ! k)" if "k < length ?cs" for k
  proof -
    from inv that have "distinct_depths styles (?cs ! k)"
      by (simp add: layout_inv_def)
    then show ?thesis
      using nth [OF that] by (simp add: distinct_depths_reverse)
  qed
  have "layout_inv styles (span_begin s) ?st1"
    unfolding layout_inv_def len using k1 k2 k3 by blast
  with rmo show ?thesis by simp
qed

lemma layout_inv_add:
  assumes wc: "well_chunked (text_chunks st)" and al: "aligned (text_chunks st) s"
    and inv: "layout_inv styles (span_begin s) st"
    and rmo: "span_end s \<le> rightMostOffset st"
    and reg: "\<not> span_mouseSelected s"
    and sd: "span_depths styles s (text_chunks st) = Inr (nd, nz)"
  shows "layout_inv styles (span_begin s)
           (st\<lparr>text_chunks := map (add_annotation s nd nz) (text_chunks st),
               underlineCluster := cl, underlineClusterDepth := u\<rparr>)"
proof -
  let ?cs = "text_chunks st"
  let ?add = "add_annotation s nd nz"
  have inside: "span_begin s \<le> chunk_begin (?cs ! k) \<and> chunk_end (?cs ! k) \<le> span_end s"
    if "k < length ?cs" "overlaps (?cs ! k) s" for k
    using aligned_overlap_nonempty [OF wc al that] by simp
  have k1: "chunk_end (?add (?cs ! k)) \<le> max (rightMostOffset st) (span_begin s)"
    if k: "k < length ?cs" and a: "\<exists>a \<in> set (token_annotations (?add (?cs ! k))). \<not> mouseSelected a"
    for k
  proof (cases "overlaps (?cs ! k) s")
    case True
    from inside [OF k True] rmo
    have "chunk_end (?cs ! k) \<le> max (rightMostOffset st) (span_begin s)"
      by linarith
    then show ?thesis
      by (simp add: add_annotation_def)
  next
    case False
    with a have "\<exists>a \<in> set (token_annotations (?cs ! k)). \<not> mouseSelected a"
      by (simp add: add_annotation_def)
    with inv k have "chunk_end (?cs ! k) \<le> max (rightMostOffset st) (span_begin s)"
      by (simp add: layout_inv_def)
    with False show ?thesis
      by (simp add: add_annotation_def)
  qed
  have k2: "reg_keys styles (?add (?cs ! Suc k)) \<subseteq> reg_keys styles (?add (?cs ! k))"
    if sk: "Suc k < length ?cs" and b: "span_begin s \<le> chunk_begin (?add (?cs ! k))" for k
  proof -
    from sk have k: "k < length ?cs" by simp
    from b have b': "span_begin s \<le> chunk_begin (?cs ! k)"
      by (simp add: add_annotation_def split: if_splits)
    with inv sk have old: "reg_keys styles (?cs ! Suc k) \<subseteq> reg_keys styles (?cs ! k)"
      by (simp add: layout_inv_def)
    have "overlaps (?cs ! k) s" if o: "overlaps (?cs ! Suc k) s"
    proof -
      from wc k have "chunk_begin (?cs ! k) < chunk_end (?cs ! k)"
        by (simp add: well_chunked_def)
      moreover from wc sk have "chunk_end (?cs ! k) = chunk_begin (?cs ! Suc k)"
        by (simp add: well_chunked_def)
      moreover from o have "chunk_begin (?cs ! Suc k) < span_end s"
        by (simp add: overlaps_def)
      ultimately show ?thesis
        using b' by (simp add: overlaps_def)
    qed
    with old show ?thesis
      by (auto simp: reg_keys_add)
  qed
  have k3: "distinct_depths styles (?add (?cs ! k))" if k: "k < length ?cs" for k
  proof (rule distinct_depths_add)
    from inv k show "distinct_depths styles (?cs ! k)"
      by (simp add: layout_inv_def)
  next
    assume o: "overlaps (?cs ! k) s" and auto: "auto_nesting styles (span_style s)"
    from o k have "\<exists>c \<in> set ?cs. overlaps c s"
      using nth_mem by blast
    then obtain c0 where first: "find (\<lambda>c. overlaps c s) ?cs = Some c0"
      by (cases "find (\<lambda>c. overlaps c s) ?cs") (auto simp: find_None_no_overlap)
    from find_first_index [OF first] obtain k0
      where k0: "k0 < length ?cs" "?cs ! k0 = c0" "overlaps c0 s"
        and least: "\<forall>j < k0. \<not> overlaps (?cs ! j) s"
      by blast
    from least o have le: "k0 \<le> k"
      by (meson not_le_imp_less)
    from inside [OF k0(1)] k0(2,3) have b0: "span_begin s \<le> chunk_begin (?cs ! k0)"
      by simp
    from inv have nest: "\<forall>k. Suc k < length ?cs \<and> span_begin s \<le> chunk_begin (?cs ! k)
                 \<longrightarrow> reg_keys styles (?cs ! Suc k) \<subseteq> reg_keys styles (?cs ! k)"
      by (simp add: layout_inv_def)
    from reg_keys_chain [OF wc nest b0 le k] k0(2)
    have sub: "reg_keys styles (?cs ! k) \<subseteq> reg_keys styles c0"
      by simp
    from span_depths_fresh [OF sd reg auto first] sub
    show "nd \<noteq> None \<and> (is_underline styles (span_style s), nd) \<notin> reg_keys styles (?cs ! k)"
      by blast
  qed
  define cs' where "cs' = map ?add ?cs"
  have len: "length cs' = length ?cs"
    by (simp add: cs'_def)
  have nth: "cs' ! k = ?add (?cs ! k)" if "k < length ?cs" for k
    using that by (simp add: cs'_def)
  have c1: "chunk_end (cs' ! k) \<le> max (rightMostOffset st) (span_begin s)"
    if "k < length cs'" "\<exists>a \<in> set (token_annotations (cs' ! k)). \<not> mouseSelected a" for k
    using k1 [of k] that by (simp add: len nth)
  have c2: "reg_keys styles (cs' ! Suc k) \<subseteq> reg_keys styles (cs' ! k)"
    if "Suc k < length cs'" "span_begin s \<le> chunk_begin (cs' ! k)" for k
    using k2 [of k] that by (simp add: len nth)
  have c3: "distinct_depths styles (cs' ! k)" if "k < length cs'" for k
    using k3 [of k] that by (simp add: len nth)
  from c1 c2 c3 show ?thesis
    unfolding layout_inv_def by (simp add: cs'_def [symmetric])
qed

lemma layout_inv_style_span:
  assumes geo: "geometry st (s # ss)" and inv: "layout_inv styles B st"
    and B: "B \<le> span_begin s" and reg: "\<not> span_mouseSelected s"
    and run: "style_span styles s st = Inr st'"
  shows "layout_inv styles (span_begin s) st'"
proof -
  let ?st1 = "cluster_boundary styles s st"
  from style_span_Inr [OF run] obtain nd nz
    where sd: "span_depths styles s (text_chunks ?st1) = Inr (nd, nz)"
      and st': "st' = ?st1
             \<lparr>text_chunks := map (add_annotation s nd nz) (text_chunks ?st1),
              underlineCluster := cluster_after s 0 (text_chunks ?st1) (underlineCluster ?st1),
              underlineClusterDepth :=
                ucd_after styles s (text_chunks ?st1) nd (underlineClusterDepth ?st1)\<rparr>"
    by blast
  from geometry_cluster_boundary [OF geo, of styles s]
  have wc: "well_chunked (text_chunks ?st1)" and al: "aligned (text_chunks ?st1) s"
    by simp_all
  from layout_inv_cluster_boundary [OF geo inv B]
  have inv1: "layout_inv styles (span_begin s) ?st1"
    and rmo: "span_end s \<le> rightMostOffset ?st1"
    by simp_all
  show ?thesis
    unfolding st' by (rule layout_inv_add [OF wc al inv1 rmo reg sd])
qed

section \<open>Distinct depths: all spans, in sorted order\<close>

lemma compare_spans_regular:
  "\<not> span_mouseSelected s \<Longrightarrow> compare_spans s t \<le> 0
   \<Longrightarrow> \<not> span_mouseSelected t \<and> span_begin s \<le> span_begin t"
  by (auto simp: compare_spans_def split: if_splits)

lemma distinct_depths_style_spans:
  assumes "sorted_wrt (\<lambda>a b. compare_spans a b \<le> 0) ss" and "geometry st ss"
    and "only_mouse_selected st
         \<or> (layout_inv styles B st \<and> (\<forall>s \<in> set ss. \<not> span_mouseSelected s \<and> B \<le> span_begin s))"
    and "style_spans styles ss st = Inr st'"
  shows "\<forall>k < length (text_chunks st'). distinct_depths styles (text_chunks st' ! k)"
  using assms
proof (induction ss arbitrary: st B)
  case Nil
  then have "layout_inv styles B st'"
    by (auto intro: layout_inv_only_mouse_selected)
  then show ?case
    by (simp add: layout_inv_def)
next
  case (Cons s ss)
  from Cons.prems(4) obtain st1 where st1: "style_span styles s st = Inr st1"
    and rest: "style_spans styles ss st1 = Inr st'"
    by (auto split: sum.splits)
  from Cons.prems(1) have sorted: "sorted_wrt (\<lambda>a b. compare_spans a b \<le> 0) ss"
    and after: "\<forall>t \<in> set ss. compare_spans s t \<le> 0"
    by simp_all
  have geo1: "geometry st1 ss"
    using geometry_style_span [OF Cons.prems(2) st1] by (rule geometry_tail)
  show ?case
  proof (cases "span_mouseSelected s")
    case True
    with Cons.prems(3) have only: "only_mouse_selected st" by auto
    from Cons.prems(2) have "distinct (underlineCluster st)"
      by (simp add: geometry_def)
    from only_mouse_selected_style_span [OF this only True st1]
    have "only_mouse_selected st1" .
    then show ?thesis
      using Cons.IH [OF sorted geo1 _ rest] by blast
  next
    case False
    from Cons.prems(3) obtain B0 where inv: "layout_inv styles B0 st" and B0: "B0 \<le> span_begin s"
      using layout_inv_only_mouse_selected [of st styles "span_begin s"] by auto
    from layout_inv_style_span [OF Cons.prems(2) inv B0 False st1]
    have inv1: "layout_inv styles (span_begin s) st1" .
    from after False have "\<forall>t \<in> set ss. \<not> span_mouseSelected t \<and> span_begin s \<le> span_begin t"
      by (blast dest: compare_spans_regular)
    with inv1 show ?thesis
      using Cons.IH [OF sorted geo1 _ rest] by blast
  qed
qed

lemma compare_spans_with_text [simp]:
  "compare_spans (with_text t a) (with_text t b) = compare_spans a b"
  by (simp add: compare_spans_def)

lemma styled_text_chunks_distinct_depths:
  assumes "styled_text_chunks spans t styles = Inr cs"
  shows "\<forall>c \<in> set cs. distinct_depths styles c"
proof -
  let ?spans = "map (with_text t) (sort_spans spans)"
  let ?st0 = "init_state (chunkText ?spans t)"
  from assms obtain st where run: "style_spans styles ?spans ?st0 = Inr st"
    and cs: "cs = text_chunks (reverseUnderlineClusterDepths styles st)"
    by (auto simp: styled_text_chunks_def styleTextChunks_def Let_def split: sum.splits)
  have sorted: "sorted_wrt (\<lambda>a b. compare_spans a b \<le> 0) ?spans"
    using sorted_sort_spans [of spans] by (simp add: sorted_wrt_map)
  have only: "only_mouse_selected ?st0"
    by (simp add: only_mouse_selected_def init_state_def nth_chunkText)
  from distinct_depths_style_spans [OF sorted geometry_init _ run, of 0] only
  have dd: "\<forall>k < length (text_chunks st). distinct_depths styles (text_chunks st ! k)"
    by blast
  have d0: "distinct (underlineCluster ?st0)"
    by (simp add: init_state_def)
  from sourced_style_spans [OF d0 sourced_init run]
  have d: "distinct (underlineCluster st)"
    by simp
  have "distinct_depths styles (cs ! k)" if "k < length cs" for k
    using that dd unfolding cs length_reverse
    by (simp add: nth_reverse [OF d] distinct_depths_reverse)
  then show ?thesis
    by (metis in_set_conv_nth)
qed

lemma distinct_map_filter_nth:
  "distinct (map f (filter P xs)) \<Longrightarrow> i < j \<Longrightarrow> j < length xs \<Longrightarrow> P (xs ! i) \<Longrightarrow> P (xs ! j)
   \<Longrightarrow> f (xs ! i) \<noteq> f (xs ! j)"
proof (induction xs arbitrary: i j)
  case Nil
  then show ?case by simp
next
  case (Cons x xs)
  from Cons.prems(2) obtain j' where j: "j = Suc j'" by (cases j) auto
  show ?case
  proof (cases i)
    case 0
    from Cons.prems(3,5) j have "xs ! j' \<in> set (filter P xs)" by simp
    then have "f (xs ! j') \<in> f ` set (filter P xs)" by (rule imageI)
    with Cons.prems(1,4) 0 j show ?thesis by auto
  next
    case (Suc i')
    with Cons.prems j have "f (xs ! i') \<noteq> f (xs ! j')"
      by (intro Cons.IH) (auto split: if_splits)
    with Suc j show ?thesis by simp
  qed
qed

lemma style_span_first_free:
  assumes run: "style_span styles s st = Inr st'"
    and auto: "\<not> span_mouseSelected s" "auto_nesting styles (span_style s)"
    and first: "find (\<lambda>c. overlaps c s) (text_chunks (cluster_boundary styles s st)) = Some c0"
  shows "\<exists>d z. first_free d (shape_depths styles (is_underline styles (span_style s))
                              (token_annotations c0))
       \<and> first_free z (taken_zIndices (token_annotations c0))
       \<and> text_chunks st' = map (add_annotation s (Some d) (Some z))
                               (text_chunks (cluster_boundary styles s st))"
proof -
  let ?st1 = "cluster_boundary styles s st"
  from style_span_Inr [OF run] obtain nd nz
    where sd: "span_depths styles s (text_chunks ?st1) = Inr (nd, nz)"
      and st': "st' = ?st1
             \<lparr>text_chunks := map (add_annotation s nd nz) (text_chunks ?st1),
              underlineCluster := cluster_after s 0 (text_chunks ?st1) (underlineCluster ?st1),
              underlineClusterDepth :=
                ucd_after styles s (text_chunks ?st1) nd (underlineClusterDepth ?st1)\<rparr>"
    by blast
  from sd auto first
  have "compute_depths styles (span_style s) (token_annotations c0) = Inr (nd, nz)"
    by (simp add: span_depths_def)
  from compute_depths_first_free [OF this] obtain d z
    where "nd = Some d" "nz = Some z"
      and "first_free d (shape_depths styles (is_underline styles (span_style s))
                              (token_annotations c0))"
      and "first_free z (taken_zIndices (token_annotations c0))"
    by blast
  moreover have "text_chunks st' = map (add_annotation s nd nz) (text_chunks ?st1)"
    unfolding st' by simp
  ultimately show ?thesis by blast
qed

text \<open>
  Claim C3, as the code has it. After the layout, on every chunk, no two annotations
  that were laid out automatically (not mouse-selected, style without
  \<open>autoNestingLayout: false\<close>) and whose styles have the same shape category have the
  same depth. And when a span that is laid out automatically is processed, \<open>c0\<close> being
  its first overlapping chunk: its depth is the smallest non-negative integer that no
  annotation of \<open>c0\<close> which is not mouse-selected and has the span's shape category
  holds, its z-index is the smallest non-negative integer that no annotation of \<open>c0\<close>
  which is not mouse-selected holds, and every overlapping chunk gets the annotation
  with that depth and z-index.
\<close>

theorem first_fit_depths:
  "(styled_text_chunks spans text styles = Inr cs \<longrightarrow>
      (\<forall>c \<in> set cs. \<forall>i j.
          i < j \<and> j < length (token_annotations c)
          \<and> laid_out styles (token_annotations c ! i) \<and> laid_out styles (token_annotations c ! j)
          \<and> is_underline styles (ann_style (token_annotations c ! i))
              = is_underline styles (ann_style (token_annotations c ! j))
          \<longrightarrow> depth (token_annotations c ! i) \<noteq> depth (token_annotations c ! j)))
   \<and> (style_span styles s st = Inr st' \<and> \<not> span_mouseSelected s
        \<and> auto_nesting styles (span_style s)
        \<and> find (\<lambda>c. overlaps c s) (text_chunks (cluster_boundary styles s st)) = Some c0 \<longrightarrow>
      (\<exists>d z. first_free d (shape_depths styles (is_underline styles (span_style s))
                             (token_annotations c0))
         \<and> first_free z (taken_zIndices (token_annotations c0))
         \<and> text_chunks st' = map (add_annotation s (Some d) (Some z))
                                 (text_chunks (cluster_boundary styles s st))))"
proof (intro conjI impI ballI allI)
  fix c i j
  assume run: "styled_text_chunks spans text styles = Inr cs" and c: "c \<in> set cs"
    and ij: "i < j \<and> j < length (token_annotations c)
          \<and> laid_out styles (token_annotations c ! i) \<and> laid_out styles (token_annotations c ! j)
          \<and> is_underline styles (ann_style (token_annotations c ! i))
              = is_underline styles (ann_style (token_annotations c ! j))"
  from styled_text_chunks_distinct_depths [OF run] c
  have "distinct (map (depth_key styles) (filter (laid_out styles) (token_annotations c)))"
    by (simp add: distinct_depths_def)
  from distinct_map_filter_nth [OF this] ij
  have "depth_key styles (token_annotations c ! i) \<noteq> depth_key styles (token_annotations c ! j)"
    by blast
  with ij show "depth (token_annotations c ! i) \<noteq> depth (token_annotations c ! j)"
    by (simp add: depth_key_def)
next
  assume "style_span styles s st = Inr st' \<and> \<not> span_mouseSelected s
        \<and> auto_nesting styles (span_style s)
        \<and> find (\<lambda>c. overlaps c s) (text_chunks (cluster_boundary styles s st)) = Some c0"
  then show "\<exists>d z. first_free d (shape_depths styles (is_underline styles (span_style s))
                             (token_annotations c0))
         \<and> first_free z (taken_zIndices (token_annotations c0))
         \<and> text_chunks st' = map (add_annotation s (Some d) (Some z))
                                 (text_chunks (cluster_boundary styles s st))"
    using style_span_first_free by blast
qed

text \<open>
  Two nested box spans \<open>[0,5)\<close> and \<open>[1,3)\<close>: on the chunk \<open>[1,3)\<close> their annotations
  have different depths. And the span \<open>[1,3)\<close>, processed after \<open>[0,5)\<close>, gets a
  depth and a z-index on its first chunk.
\<close>

theorem first_fit_depths_witness:
  "(\<exists>cs. styled_text_chunks [mk_span 0 5 ''b'' False, mk_span 1 3 ''b'' False]
            example_text example_styles = Inr cs
      \<and> depth (token_annotations (cs ! 1) ! 0) \<noteq> depth (token_annotations (cs ! 1) ! 1))
   \<and> (\<exists>st st' c0 d z.
        style_span example_styles (mk_span 0 5 ''b'' False)
          (init_state (chunkText [mk_span 0 5 ''b'' False, mk_span 1 3 ''b'' False] example_text))
          = Inr st
      \<and> style_span example_styles (mk_span 1 3 ''b'' False) st = Inr st'
      \<and> find (\<lambda>c. overlaps c (mk_span 1 3 ''b'' False))
           (text_chunks (cluster_boundary example_styles (mk_span 1 3 ''b'' False) st)) = Some c0
      \<and> text_chunks st' = map (add_annotation (mk_span 1 3 ''b'' False) (Some d) (Some z))
           (text_chunks (cluster_boundary example_styles (mk_span 1 3 ''b'' False) st)))"
proof
  let ?r = "styled_text_chunks [mk_span 0 5 ''b'' False, mk_span 1 3 ''b'' False]
              example_text example_styles"
  have ev: "case ?r of
              Inl e \<Rightarrow> False
            | Inr cs \<Rightarrow> length cs = 4 \<and> length (token_annotations (cs ! 1)) = 2
                \<and> laid_out example_styles (token_annotations (cs ! 1) ! 0)
                \<and> laid_out example_styles (token_annotations (cs ! 1) ! 1)
                \<and> is_underline example_styles (ann_style (token_annotations (cs ! 1) ! 0))
                    = is_underline example_styles (ann_style (token_annotations (cs ! 1) ! 1))"
    by code_simp
  then obtain cs where run: "?r = Inr cs" and len: "length cs = 4"
    and pre: "(0::nat) < 1 \<and> 1 < length (token_annotations (cs ! 1))
          \<and> laid_out example_styles (token_annotations (cs ! 1) ! 0)
          \<and> laid_out example_styles (token_annotations (cs ! 1) ! 1)
          \<and> is_underline example_styles (ann_style (token_annotations (cs ! 1) ! 0))
              = is_underline example_styles (ann_style (token_annotations (cs ! 1) ! 1))"
    by (auto split: sum.splits)
  from len have mem: "cs ! 1 \<in> set cs" by simp
  from first_fit_depths [of "[mk_span 0 5 ''b'' False, mk_span 1 3 ''b'' False]"
      example_text example_styles cs] run mem pre
  have "depth (token_annotations (cs ! 1) ! 0) \<noteq> depth (token_annotations (cs ! 1) ! 1)"
    by blast
  with run
  show "\<exists>cs. ?r = Inr cs
      \<and> depth (token_annotations (cs ! 1) ! 0) \<noteq> depth (token_annotations (cs ! 1) ! 1)"
    by blast
next
  let ?s = "mk_span 1 3 ''b'' False"
  let ?st0 = "init_state (chunkText [mk_span 0 5 ''b'' False, mk_span 1 3 ''b'' False] example_text)"
  have ev: "case style_span example_styles (mk_span 0 5 ''b'' False) ?st0 of
              Inl e \<Rightarrow> False
            | Inr st \<Rightarrow> style_span example_styles ?s st \<noteq> Inl TypeError
                \<and> find (\<lambda>c. overlaps c ?s)
                     (text_chunks (cluster_boundary example_styles ?s st)) \<noteq> None"
    by code_simp
  then obtain st where st: "style_span example_styles (mk_span 0 5 ''b'' False) ?st0 = Inr st"
    and ok: "style_span example_styles ?s st \<noteq> Inl TypeError"
    and fnd: "find (\<lambda>c. overlaps c ?s)
                (text_chunks (cluster_boundary example_styles ?s st)) \<noteq> None"
    by (auto split: sum.splits)
  from ok obtain st' where st': "style_span example_styles ?s st = Inr st'"
    by (cases "style_span example_styles ?s st") (auto simp: js_error_TypeError)
  from fnd obtain c0 where c0: "find (\<lambda>c. overlaps c ?s)
                (text_chunks (cluster_boundary example_styles ?s st)) = Some c0"
    by auto
  have auto: "\<not> span_mouseSelected ?s \<and> auto_nesting example_styles (span_style ?s)"
    by code_simp
  from first_fit_depths [of _ _ example_styles _ ?s st st' c0] st' c0 auto
  obtain d z where "text_chunks st' = map (add_annotation ?s (Some d) (Some z))
           (text_chunks (cluster_boundary example_styles ?s st))"
    by blast
  with st st' c0
  show "\<exists>st st' c0 d z.
        style_span example_styles (mk_span 0 5 ''b'' False) ?st0 = Inr st
      \<and> style_span example_styles ?s st = Inr st'
      \<and> find (\<lambda>c. overlaps c ?s)
           (text_chunks (cluster_boundary example_styles ?s st)) = Some c0
      \<and> text_chunks st' = map (add_annotation ?s (Some d) (Some z))
           (text_chunks (cluster_boundary example_styles ?s st))"
    by blast
qed

text \<open>
  Two box spans \<open>[0,2)\<close> whose style has \<open>autoNestingLayout: false\<close>: both annotations
  of the chunk \<open>[0,2)\<close> keep the depth \<open>null\<close>. And an underline span \<open>[0,2)\<close> with an
  underline span \<open>[0,2)\<close> whose style opts out: both end with the depth -1.
\<close>

theorem opted_out_depths_equal:
  "annotation_summary example_styles
     (styled_text_chunks [mk_span 0 2 ''c'' False, mk_span 0 2 ''c'' False]
        example_text example_styles)
   = Inr [[(False, False, None), (False, False, None)], []]
   \<and> annotation_summary example_styles
     (styled_text_chunks [mk_span 0 2 ''u'' False, mk_span 0 2 ''v'' False]
        example_text example_styles)
   = Inr [[(False, True, Some (- 1)), (False, True, Some (- 1))], []]"
  by code_simp

end
